theory Spec2Isabelle
  imports Main "HOL-Library.Sublist"
begin

section \<open>KMP literal search\<close>

text \<open>
  Byte strings are lists. The iterator templates of \<^verbatim>\<open>failure.hpp\<close> and
  \<^verbatim>\<open>search.hpp\<close> work for every element type with equality; the string-view entry
  points and the SIMD kernels are instances at \<^typ>\<open>string\<close>. Iterators and
  \<^verbatim>\<open>const char*\<close> pointers into the text are offsets from its first byte;
  \<^verbatim>\<open>text_last\<close> is the offset \<^term>\<open>length text\<close>, a null pointer is \<^term>\<open>None\<close>.
  Lengths and indices (\<^verbatim>\<open>size_type\<close>) are natural numbers. A loop whose termination
  depends on the contents of the failure table it is handed returns an option, where
  \<^term>\<open>None\<close> stands for a loop that never returns.
\<close>

subsection \<open>Failure function (\<^verbatim>\<open>failure.hpp\<close>)\<close>

text \<open>
  The fall-back loop that \<^verbatim>\<open>compute_failure\<close>, \<^verbatim>\<open>kmp_search_scalar\<close> and
  \<^verbatim>\<open>search_all\<close> share:
  \<^verbatim>\<open>while (k > 0 && c != pattern[k]) k = failure[k - 1];\<close>
\<close>

partial_function (option) fallback :: "'a list \<Rightarrow> nat list \<Rightarrow> 'a \<Rightarrow> nat \<Rightarrow> nat option" where
  "fallback pattern failure c k =
     (if k > 0 \<and> c \<noteq> pattern ! k
      then fallback pattern failure c (failure ! (k - 1))
      else Some k)"

declare fallback.simps [code]

text \<open>The \<^verbatim>\<open>for (i = 1; i < m; ++i)\<close> loop of \<^verbatim>\<open>compute_failure\<close>.\<close>

function failure_loop :: "'a list \<Rightarrow> nat \<Rightarrow> nat \<Rightarrow> nat list \<Rightarrow> nat list option" where
  "failure_loop pattern i k failure =
     (if i < length pattern then
        (case fallback pattern failure (pattern ! i) k of
           None \<Rightarrow> None
         | Some k1 \<Rightarrow>
             (let k2 = (if pattern ! i = pattern ! k1 then k1 + 1 else k1)
              in failure_loop pattern (i + 1) k2 (failure[i := k2])))
      else Some failure)"
  by pat_completeness auto
termination
  by (relation "measure (\<lambda>(p, i, k, f). length p - i)") auto

declare failure_loop.simps [simp del]

definition compute_failure :: "'a list \<Rightarrow> nat list option" where
  "compute_failure pattern =
     (let m = length pattern in
      if m = 0 then Some [] else failure_loop pattern 1 0 (replicate m 0))"

subsection \<open>Generator-based \<^verbatim>\<open>search_all\<close> (\<^verbatim>\<open>search.hpp\<close>)\<close>

text \<open>
  The values the generator yields are collected, in order, in \<open>out\<close>. The yielded
  \<^verbatim>\<open>i - m + 1\<close> is computed in unsigned arithmetic; a yield happens only when
  \<open>j = m\<close>, where \<open>m \<le> i + 1\<close>, and there the wrapped value is \<open>i + 1 - m\<close>.
\<close>

function search_all_loop ::
  "'a list \<Rightarrow> 'a list \<Rightarrow> nat list \<Rightarrow> nat \<Rightarrow> nat \<Rightarrow> nat list \<Rightarrow> nat list option" where
  "search_all_loop text pattern failure i j out =
     (if i < length text then
        (case fallback pattern failure (text ! i) j of
           None \<Rightarrow> None
         | Some j1 \<Rightarrow>
             (let j2 = (if text ! i = pattern ! j1 then j1 + 1 else j1) in
              if j2 = length pattern
              then search_all_loop text pattern failure (i + 1) (failure ! (j2 - 1))
                     (out @ [i + 1 - length pattern])
              else search_all_loop text pattern failure (i + 1) j2 out))
      else Some out)"
  by pat_completeness auto
termination
  by (relation "measure (\<lambda>(t, p, f, i, j, out). length t - i)") auto

declare search_all_loop.simps [simp del]

definition search_all :: "string \<Rightarrow> string \<Rightarrow> nat list option" where
  "search_all text pattern =
     (let n = length text; m = length pattern in
      if m = 0 \<or> n < m then Some []
      else case compute_failure pattern of
             None \<Rightarrow> None
           | Some failure \<Rightarrow> search_all_loop text pattern failure 0 0 [])"

subsection \<open>Scalar KMP (\<^verbatim>\<open>kmp_search_scalar\<close>)\<close>

text \<open>
  The iterator \<open>it\<close> runs from \<^verbatim>\<open>text_first\<close> (offset 0) upwards, so the loop test
  \<^verbatim>\<open>it != text_last\<close> is \<open>it < length text\<close>. The result is the offset of the
  returned iterator; \<^verbatim>\<open>text_last\<close> is \<open>length text\<close>.
\<close>

function scalar_loop :: "'a list \<Rightarrow> 'a list \<Rightarrow> nat list \<Rightarrow> nat \<Rightarrow> nat \<Rightarrow> nat option" where
  "scalar_loop text pattern failure it j =
     (if it < length text then
        (case fallback pattern failure (text ! it) j of
           None \<Rightarrow> None
         | Some j1 \<Rightarrow>
             (let j2 = (if text ! it = pattern ! j1 then j1 + 1 else j1) in
              if j2 = length pattern
              then Some (it + 1 - length pattern)
              else scalar_loop text pattern failure (it + 1) j2))
      else Some (length text))"
  by pat_completeness auto
termination
  by (relation "measure (\<lambda>(t, p, f, it, j). length t - it)") auto

declare scalar_loop.simps [simp del]

definition kmp_search_scalar :: "'a list \<Rightarrow> 'a list \<Rightarrow> nat list \<Rightarrow> nat option" where
  "kmp_search_scalar text pattern failure =
     (let m = length pattern in
      if m = 0 then Some 0 else scalar_loop text pattern failure 0 0)"

subsection \<open>SIMD primitives\<close>

text \<open>
  A vector register is the list of its byte lanes, lane 0 first. An unaligned load reads
  \<open>w\<close> consecutive bytes, \<^verbatim>\<open>set1_epi8\<close> broadcasts a byte, \<^verbatim>\<open>cmpeq_epi8\<close>
  compares lane by lane, \<^verbatim>\<open>movemask_epi8\<close> packs the lane results into an integer
  whose bit \<open>i\<close> is lane \<open>i\<close>, and \<^verbatim>\<open>__builtin_ctz\<close> counts trailing zero bits
  (it is only called on a non-zero argument).
\<close>

definition loadu :: "nat \<Rightarrow> string \<Rightarrow> nat \<Rightarrow> string" where
  "loadu w buf ptr = take w (drop ptr buf)"

definition set1_epi8 :: "nat \<Rightarrow> char \<Rightarrow> string" where
  "set1_epi8 w c = replicate w c"

definition cmpeq_epi8 :: "string \<Rightarrow> string \<Rightarrow> bool list" where
  "cmpeq_epi8 a b = map (\<lambda>(x, y). x = y) (zip a b)"

fun movemask_epi8 :: "bool list \<Rightarrow> nat" where
  "movemask_epi8 [] = 0"
| "movemask_epi8 (b # bs) = (if b then 1 else 0) + 2 * movemask_epi8 bs"

function ctz :: "nat \<Rightarrow> nat" where
  "ctz n = (if n = 0 \<or> odd n then 0 else Suc (ctz (n div 2)))"
  by pat_completeness auto
termination
  by (relation "measure (\<lambda>n. n)") auto

declare ctz.simps [simp del]

text \<open>The complement \<^verbatim>\<open>~mask\<close> of a \<open>w\<close>-bit mask.\<close>

definition mask_not :: "nat \<Rightarrow> nat \<Rightarrow> nat" where
  "mask_not w bits = 2 ^ w - 1 - bits"

text \<open>The scalar tail loop of every first-byte scan: \<^verbatim>\<open>while (ptr < end) ...\<close>.\<close>

function scan_tail :: "string \<Rightarrow> nat \<Rightarrow> char \<Rightarrow> nat \<Rightarrow> nat option" where
  "scan_tail buf end needle_char ptr =
     (if ptr < end then
        (if buf ! ptr = needle_char then Some ptr
         else scan_tail buf end needle_char (ptr + 1))
      else None)"
  by pat_completeness auto
termination
  by (relation "measure (\<lambda>(b, e, c, p). e - p)") auto

declare scan_tail.simps [simp del]

text \<open>One chunk of a first-byte scan: the position of the first equal lane, if any.\<close>

definition scan_chunk :: "nat \<Rightarrow> string \<Rightarrow> char \<Rightarrow> nat \<Rightarrow> nat option" where
  "scan_chunk w buf needle_char ptr =
     (let chunk = loadu w buf ptr;
          cmp = cmpeq_epi8 chunk (set1_epi8 w needle_char);
          bits = movemask_epi8 cmp
      in if bits \<noteq> 0 then Some (ptr + ctz bits) else None)"

subsection \<open>SSE4.2 kernel (\<^verbatim>\<open>sse42.hpp\<close>)\<close>

function sse42_scan16 :: "string \<Rightarrow> nat \<Rightarrow> char \<Rightarrow> nat \<Rightarrow> nat option" where
  "sse42_scan16 buf end needle_char ptr =
     (if ptr + 16 \<le> end then
        (case scan_chunk 16 buf needle_char ptr of
           Some r \<Rightarrow> Some r
         | None \<Rightarrow> sse42_scan16 buf end needle_char (ptr + 16))
      else scan_tail buf end needle_char ptr)"
  by pat_completeness auto
termination
  by (relation "measure (\<lambda>(b, e, c, p). e - p)") auto

declare sse42_scan16.simps [simp del]

text \<open>\<open>haystack\<close> is the offset of the scanned range in the text buffer \<open>buf\<close>.\<close>

definition find_first_char_sse42 :: "string \<Rightarrow> nat \<Rightarrow> nat \<Rightarrow> char \<Rightarrow> nat option" where
  "find_first_char_sse42 buf haystack haystack_len needle_char =
     (if haystack_len = 0 then None
      else sse42_scan16 buf (haystack + haystack_len) needle_char haystack)"

text \<open>\<^verbatim>\<open>while (j < pattern_len && match[j] == pattern[j]) ++j;\<close>\<close>

function sse42_verify :: "string \<Rightarrow> string \<Rightarrow> nat \<Rightarrow> nat \<Rightarrow> nat" where
  "sse42_verify text pattern match j =
     (if j < length pattern \<and> text ! (match + j) = pattern ! j
      then sse42_verify text pattern match (j + 1)
      else j)"
  by pat_completeness auto
termination
  by (relation "measure (\<lambda>(t, p, m, j). length p - j)") auto

declare sse42_verify.simps [simp del]

text \<open>\<^verbatim>\<open>while (j > 0 && match[j] != pattern[j]) j = failure[j - 1];\<close>\<close>

partial_function (option) sse42_fail :: "string \<Rightarrow> string \<Rightarrow> nat list \<Rightarrow> nat \<Rightarrow> nat \<Rightarrow> nat option" where
  "sse42_fail text pattern failure match j =
     (if j > 0 \<and> text ! (match + j) \<noteq> pattern ! j
      then sse42_fail text pattern failure match (failure ! (j - 1))
      else Some j)"

declare sse42_fail.simps [code]

text \<open>
  One pass through the body of the main loop of \<^verbatim>\<open>kmp_search_sse42\<close>: it either
  returns from the function or goes round again with a new \<^verbatim>\<open>text_ptr\<close>.
\<close>

datatype loop_step = Return "nat option" | Continue nat

definition sse42_body :: "string \<Rightarrow> string \<Rightarrow> nat list \<Rightarrow> nat \<Rightarrow> nat \<Rightarrow> loop_step option" where
  "sse42_body text pattern failure text_end text_ptr =
     (let remaining = text_end - text_ptr in
      case find_first_char_sse42 text text_ptr remaining (pattern ! 0) of
        None \<Rightarrow> Some (Return None)
      | Some match \<Rightarrow>
          (let j = sse42_verify text pattern match 1 in
           if j = length pattern then Some (Return (Some match))
           else case sse42_fail text pattern failure match j of
                  None \<Rightarrow> None
                | Some j' \<Rightarrow> Some (Continue (match + 1))))"

partial_function (option) sse42_loop ::
  "string \<Rightarrow> string \<Rightarrow> nat list \<Rightarrow> nat \<Rightarrow> nat \<Rightarrow> nat option option" where
  "sse42_loop text pattern failure text_end text_ptr =
     (if text_ptr < text_end then
        (case sse42_body text pattern failure text_end text_ptr of
           None \<Rightarrow> None
         | Some (Return r) \<Rightarrow> Some r
         | Some (Continue p) \<Rightarrow> sse42_loop text pattern failure text_end p)
      else Some None)"

declare sse42_loop.simps [code]

definition kmp_search_sse42 :: "string \<Rightarrow> string \<Rightarrow> nat list \<Rightarrow> nat option option" where
  "kmp_search_sse42 text pattern failure =
     (let text_len = length text; pattern_len = length pattern in
      if pattern_len = 0 then Some (Some 0)
      else if text_len < pattern_len then Some None
      else sse42_loop text pattern failure (text_len - pattern_len + 1) 0)"

subsection \<open>AVX2 kernel (\<^verbatim>\<open>avx2.hpp\<close>)\<close>

function avx2_scan16 :: "string \<Rightarrow> nat \<Rightarrow> char \<Rightarrow> nat \<Rightarrow> nat option" where
  "avx2_scan16 buf end needle_char ptr =
     (if ptr + 16 \<le> end then
        (case scan_chunk 16 buf needle_char ptr of
           Some r \<Rightarrow> Some r
         | None \<Rightarrow> avx2_scan16 buf end needle_char (ptr + 16))
      else scan_tail buf end needle_char ptr)"
  by pat_completeness auto
termination
  by (relation "measure (\<lambda>(b, e, c, p). e - p)") auto

declare avx2_scan16.simps [simp del]

function avx2_scan32 :: "string \<Rightarrow> nat \<Rightarrow> char \<Rightarrow> nat \<Rightarrow> nat option" where
  "avx2_scan32 buf end needle_char ptr =
     (if ptr + 32 \<le> end then
        (case scan_chunk 32 buf needle_char ptr of
           Some r \<Rightarrow> Some r
         | None \<Rightarrow> avx2_scan32 buf end needle_char (ptr + 32))
      else avx2_scan16 buf end needle_char ptr)"
  by pat_completeness auto
termination
  by (relation "measure (\<lambda>(b, e, c, p). e - p)") auto

declare avx2_scan32.simps [simp del]

definition find_first_char_avx2 :: "string \<Rightarrow> nat \<Rightarrow> nat \<Rightarrow> char \<Rightarrow> nat option" where
  "find_first_char_avx2 buf haystack haystack_len needle_char =
     (if haystack_len = 0 then None
      else avx2_scan32 buf (haystack + haystack_len) needle_char haystack)"

text \<open>
  One chunk of a vector compare of \<open>a[i..]\<close> with \<open>b[i..]\<close>: the lane of the first
  mismatch, if the equality mask is not all ones.
\<close>

definition cmp_chunk :: "nat \<Rightarrow> string \<Rightarrow> nat \<Rightarrow> string \<Rightarrow> nat \<Rightarrow> nat option" where
  "cmp_chunk w bufa pa bufb pb =
     (let va = loadu w bufa pa;
          vb = loadu w bufb pb;
          bits = movemask_epi8 (cmpeq_epi8 va vb)
      in if bits \<noteq> 2 ^ w - 1 then Some (ctz (mask_not w bits)) else None)"

text \<open>The scalar tail of a compare; \<open>a\<close> is the offset of the first operand in \<open>text\<close>.\<close>

function cmp_tail :: "string \<Rightarrow> nat \<Rightarrow> string \<Rightarrow> nat \<Rightarrow> nat \<Rightarrow> nat" where
  "cmp_tail text a b len i =
     (if i < len then
        (if text ! (a + i) \<noteq> b ! i then i else cmp_tail text a b len (i + 1))
      else len)"
  by pat_completeness auto
termination
  by (relation "measure (\<lambda>(t, a, b, len, i). len - i)") auto

declare cmp_tail.simps [simp del]

function avx2_cmp32 :: "string \<Rightarrow> nat \<Rightarrow> string \<Rightarrow> nat \<Rightarrow> nat \<Rightarrow> nat" where
  "avx2_cmp32 text a b len i =
     (if i + 32 \<le> len then
        (case cmp_chunk 32 text (a + i) b i of
           Some idx \<Rightarrow> i + idx
         | None \<Rightarrow> avx2_cmp32 text a b len (i + 32))
      else cmp_tail text a b len i)"
  by pat_completeness auto
termination
  by (relation "measure (\<lambda>(t, a, b, len, i). len - i)") auto

declare avx2_cmp32.simps [simp del]

definition compare_avx2 :: "string \<Rightarrow> nat \<Rightarrow> string \<Rightarrow> nat \<Rightarrow> nat" where
  "compare_avx2 text a b len = avx2_cmp32 text a b len 0"

text \<open>
  The skip \<^verbatim>\<open>match_len - failure[match_len - 1]\<close> is an unsigned subtraction; with a
  table entry not above \<open>match_len\<close> it is the natural-number difference.
\<close>

definition avx2_body :: "string \<Rightarrow> string \<Rightarrow> nat list \<Rightarrow> nat \<Rightarrow> nat \<Rightarrow> loop_step" where
  "avx2_body text pattern failure text_end text_ptr =
     (let remaining = text_end - text_ptr in
      case find_first_char_avx2 text text_ptr remaining (pattern ! 0) of
        None \<Rightarrow> Return None
      | Some match \<Rightarrow>
          (let match_len = compare_avx2 text match pattern (length pattern) in
           if match_len = length pattern then Return (Some match)
           else (let skip = (if match_len > 0
                             then match_len - failure ! (match_len - 1) else 1)
                 in Continue (match + skip))))"

partial_function (option) avx2_loop ::
  "string \<Rightarrow> string \<Rightarrow> nat list \<Rightarrow> nat \<Rightarrow> nat \<Rightarrow> nat option option" where
  "avx2_loop text pattern failure text_end text_ptr =
     (if text_ptr < text_end then
        (case avx2_body text pattern failure text_end text_ptr of
           Return r \<Rightarrow> Some r
         | Continue p \<Rightarrow> avx2_loop text pattern failure text_end p)
      else Some None)"

declare avx2_loop.simps [code]

definition kmp_search_avx2 :: "string \<Rightarrow> string \<Rightarrow> nat list \<Rightarrow> nat option option" where
  "kmp_search_avx2 text pattern failure =
     (let text_len = length text; pattern_len = length pattern in
      if pattern_len = 0 then Some (Some 0)
      else if text_len < pattern_len then Some None
      else avx2_loop text pattern failure (text_len - pattern_len + 1) 0)"

subsection \<open>AVX-512 kernel (\<^verbatim>\<open>avx512.hpp\<close>)\<close>

text \<open>After the 64-byte loop one 32-byte and one 16-byte chunk are tried, then the tail.\<close>

definition avx512_rest :: "string \<Rightarrow> nat \<Rightarrow> char \<Rightarrow> nat \<Rightarrow> nat option" where
  "avx512_rest buf end needle_char ptr =
     (case (if ptr + 32 \<le> end then scan_chunk 32 buf needle_char ptr else None) of
        Some r \<Rightarrow> Some r
      | None \<Rightarrow>
          (let ptr1 = (if ptr + 32 \<le> end then ptr + 32 else ptr) in
           case (if ptr1 + 16 \<le> end then scan_chunk 16 buf needle_char ptr1 else None) of
             Some r \<Rightarrow> Some r
           | None \<Rightarrow>
               (let ptr2 = (if ptr1 + 16 \<le> end then ptr1 + 16 else ptr1) in
                scan_tail buf end needle_char ptr2)))"

function avx512_scan64 :: "string \<Rightarrow> nat \<Rightarrow> char \<Rightarrow> nat \<Rightarrow> nat option" where
  "avx512_scan64 buf end needle_char ptr =
     (if ptr + 64 \<le> end then
        (case scan_chunk 64 buf needle_char ptr of
           Some r \<Rightarrow> Some r
         | None \<Rightarrow> avx512_scan64 buf end needle_char (ptr + 64))
      else avx512_rest buf end needle_char ptr)"
  by pat_completeness auto
termination
  by (relation "measure (\<lambda>(b, e, c, p). e - p)") auto

declare avx512_scan64.simps [simp del]

definition find_first_char_avx512 :: "string \<Rightarrow> nat \<Rightarrow> nat \<Rightarrow> char \<Rightarrow> nat option" where
  "find_first_char_avx512 buf haystack haystack_len needle_char =
     (if haystack_len = 0 then None
      else avx512_scan64 buf (haystack + haystack_len) needle_char haystack)"

definition avx512_cmp_rest :: "string \<Rightarrow> nat \<Rightarrow> string \<Rightarrow> nat \<Rightarrow> nat \<Rightarrow> nat" where
  "avx512_cmp_rest text a b len i =
     (case (if i + 32 \<le> len then cmp_chunk 32 text (a + i) b i else None) of
        Some idx \<Rightarrow> i + idx
      | None \<Rightarrow>
          (let i1 = (if i + 32 \<le> len then i + 32 else i) in
           cmp_tail text a b len i1))"

function avx512_cmp64 :: "string \<Rightarrow> nat \<Rightarrow> string \<Rightarrow> nat \<Rightarrow> nat \<Rightarrow> nat" where
  "avx512_cmp64 text a b len i =
     (if i + 64 \<le> len then
        (case cmp_chunk 64 text (a + i) b i of
           Some idx \<Rightarrow> i + idx
         | None \<Rightarrow> avx512_cmp64 text a b len (i + 64))
      else avx512_cmp_rest text a b len i)"
  by pat_completeness auto
termination
  by (relation "measure (\<lambda>(t, a, b, len, i). len - i)") auto

declare avx512_cmp64.simps [simp del]

definition compare_avx512 :: "string \<Rightarrow> nat \<Rightarrow> string \<Rightarrow> nat \<Rightarrow> nat" where
  "compare_avx512 text a b len = avx512_cmp64 text a b len 0"

definition avx512_body :: "string \<Rightarrow> string \<Rightarrow> nat list \<Rightarrow> nat \<Rightarrow> nat \<Rightarrow> loop_step" where
  "avx512_body text pattern failure text_end text_ptr =
     (let remaining = text_end - text_ptr in
      case find_first_char_avx512 text text_ptr remaining (pattern ! 0) of
        None \<Rightarrow> Return None
      | Some match \<Rightarrow>
          (let match_len = compare_avx512 text match pattern (length pattern) in
           if match_len = length pattern then Return (Some match)
           else (let skip = (if match_len > 0
                             then match_len - failure ! (match_len - 1) else 1)
                 in Continue (match + skip))))"

partial_function (option) avx512_loop ::
  "string \<Rightarrow> string \<Rightarrow> nat list \<Rightarrow> nat \<Rightarrow> nat \<Rightarrow> nat option option" where
  "avx512_loop text pattern failure text_end text_ptr =
     (if text_ptr < text_end then
        (case avx512_body text pattern failure text_end text_ptr of
           Return r \<Rightarrow> Some r
         | Continue p \<Rightarrow> avx512_loop text pattern failure text_end p)
      else Some None)"

declare avx512_loop.simps [code]

definition kmp_search_avx512 :: "string \<Rightarrow> string \<Rightarrow> nat list \<Rightarrow> nat option option" where
  "kmp_search_avx512 text pattern failure =
     (let text_len = length text; pattern_len = length pattern in
      if pattern_len = 0 then Some (Some 0)
      else if text_len < pattern_len then Some None
      else avx512_loop text pattern failure (text_len - pattern_len + 1) 0)"

subsection \<open>Dispatch (\<^verbatim>\<open>kmp::search\<close>, \<^verbatim>\<open>search_pos\<close>, \<^verbatim>\<open>contains\<close>)\<close>

text \<open>
  A kernel is chosen when it is compiled in (\<^verbatim>\<open>KMP_HAS_...\<close>) and the CPU probe
  reports the feature; \<open>use_...\<close> is the conjunction of the two.
\<close>

record dispatch =
  use_avx512 :: bool
  use_avx2 :: bool
  use_sse42 :: bool

definition simd_threshold :: nat where
  "simd_threshold = 64"

text \<open>A null result of a kernel becomes \<^verbatim>\<open>text_last\<close>.\<close>

definition ptr_to_iter :: "nat \<Rightarrow> nat option \<Rightarrow> nat" where
  "ptr_to_iter n result = (case result of Some r \<Rightarrow> r | None \<Rightarrow> n)"

definition search :: "dispatch \<Rightarrow> string \<Rightarrow> string \<Rightarrow> nat option" where
  "search cpu text pattern =
     (let n = length text; m = length pattern in
      if m = 0 then Some 0
      else if n < m then Some n
      else case compute_failure pattern of
             None \<Rightarrow> None
           | Some failure \<Rightarrow>
               if n \<ge> simd_threshold then
                 (if use_avx512 cpu
                  then map_option (ptr_to_iter n) (kmp_search_avx512 text pattern failure)
                  else if use_avx2 cpu
                  then map_option (ptr_to_iter n) (kmp_search_avx2 text pattern failure)
                  else if use_sse42 cpu
                  then map_option (ptr_to_iter n) (kmp_search_sse42 text pattern failure)
                  else kmp_search_scalar text pattern failure)
               else kmp_search_scalar text pattern failure)"

definition search_pos :: "dispatch \<Rightarrow> string \<Rightarrow> string \<Rightarrow> nat option option" where
  "search_pos cpu text pattern =
     map_option (\<lambda>it. if it = length text then None else Some it) (search cpu text pattern)"

definition contains :: "dispatch \<Rightarrow> string \<Rightarrow> string \<Rightarrow> bool option" where
  "contains cpu text pattern = map_option (\<lambda>r. r \<noteq> None) (search_pos cpu text pattern)"

section \<open>DFA regex engine (\<^verbatim>\<open>dfa.hpp\<close>)\<close>

subsection \<open>Configuration and character classes\<close>

definition ascii_size :: nat where
  "ascii_size = 128"

definition max_dfa_states :: nat where
  "max_dfa_states = 10000"

text \<open>The sentinel \<^verbatim>\<open>static_cast<size_type>(-1)\<close> of a 64-bit \<^verbatim>\<open>size_type\<close>.\<close>

definition no_transition :: nat where
  "no_transition = 2 ^ 64 - 1"

text \<open>
  A \<^verbatim>\<open>char_class\<close> is a \<^verbatim>\<open>std::bitset<128>\<close>: the list of its 128 bits.
  \<^verbatim>\<open>flip\<close> has no bit beyond the ASCII range to clear, the bitset having exactly
  \<^verbatim>\<open>size\<close> bits.
\<close>

type_synonym char_class = "bool list"

definition cc_empty :: char_class where
  "cc_empty = replicate ascii_size False"

definition cc_set :: "char_class \<Rightarrow> char \<Rightarrow> char_class" where
  "cc_set cc c = (if (of_char c :: nat) < ascii_size then cc[of_char c := True] else cc)"

definition cc_set_range :: "char_class \<Rightarrow> char \<Rightarrow> char \<Rightarrow> char_class" where
  "cc_set_range cc from to =
     fold (\<lambda>c bits. bits[c := True]) [of_char from ..< min (Suc (of_char to)) ascii_size] cc"

definition cc_set_all :: "char_class \<Rightarrow> char_class" where
  "cc_set_all cc = map (\<lambda>b. True) cc"

definition cc_flip :: "char_class \<Rightarrow> char_class" where
  "cc_flip cc = map Not cc"

definition cc_test :: "char_class \<Rightarrow> nat \<Rightarrow> bool" where
  "cc_test cc uc \<longleftrightarrow> uc < ascii_size \<and> cc ! uc"

definition cc_digit :: char_class where
  "cc_digit = cc_set_range cc_empty CHR ''0'' CHR ''9''"

definition cc_word :: char_class where
  "cc_word =
     cc_set (cc_set_range (cc_set_range (cc_set_range cc_empty CHR ''a'' CHR ''z'')
                             CHR ''A'' CHR ''Z'') CHR ''0'' CHR ''9'') CHR ''_''"

definition cc_space :: char_class where
  "cc_space =
     cc_set (cc_set (cc_set (cc_set (cc_set (cc_set cc_empty CHR '' '') CHR 0x09) CHR 0x0A)
                       CHR 0x0D) CHR 0x0C) CHR 0x0B"

definition cc_any_char :: char_class where
  "cc_any_char = (cc_set_all cc_empty)[of_char CHR 0x0A := False]"

subsection \<open>NFA states, fragments, DFA states\<close>

datatype nfa_kind = Epsilon | CharMatch | ClassMatch | Accept

record nfa_state =
  kind :: nfa_kind
  match_char :: char
  match_class :: char_class
  next1 :: nat
  next2 :: nat

definition has_next1 :: "nfa_state \<Rightarrow> bool" where
  "has_next1 s \<longleftrightarrow> next1 s \<noteq> no_transition"

definition has_next2 :: "nfa_state \<Rightarrow> bool" where
  "has_next2 s \<longleftrightarrow> next2 s \<noteq> no_transition"

text \<open>The aggregate \<^verbatim>\<open>{kind, c, cc, n1, n2}\<close> pushed onto \<^verbatim>\<open>nfa_states_\<close>.\<close>

definition mk_state :: "nfa_kind \<Rightarrow> char \<Rightarrow> char_class \<Rightarrow> nat \<Rightarrow> nat \<Rightarrow> nfa_state" where
  "mk_state k c cc n1 n2 =
     \<lparr>kind = k, match_char = c, match_class = cc, next1 = n1, next2 = n2\<rparr>"

record nfa_fragment =
  frag_start :: nat
  frag_end :: nat

definition mk_frag :: "nat \<Rightarrow> nat \<Rightarrow> nfa_fragment" where
  "mk_frag s e = \<lparr>frag_start = s, frag_end = e\<rparr>"

record dfa_state =
  transitions :: "nat list"
  is_accept :: bool

definition new_dfa_state :: dfa_state where
  "new_dfa_state = \<lparr>transitions = replicate ascii_size no_transition, is_accept = False\<rparr>"

text \<open>
  The members \<^verbatim>\<open>states_\<close>, \<^verbatim>\<open>nfa_states_\<close> and \<^verbatim>\<open>nfa_start_\<close> of
  \<^verbatim>\<open>compiled_dfa\<close>.
\<close>

record compiled_dfa =
  dfa_states :: "dfa_state list"
  nfa_states :: "nfa_state list"
  nfa_start :: nat

subsection \<open>Matching (\<^verbatim>\<open>matches\<close>, \<^verbatim>\<open>search\<close>)\<close>

fun matches_loop :: "dfa_state list \<Rightarrow> nat \<Rightarrow> string \<Rightarrow> bool" where
  "matches_loop sts state [] = is_accept (sts ! state)"
| "matches_loop sts state (c # cs) =
     (let uc = (of_char c :: nat) in
      if uc \<ge> ascii_size then False
      else (let next = transitions (sts ! state) ! uc in
            if next = no_transition then False
            else matches_loop sts next cs))"

definition matches :: "compiled_dfa \<Rightarrow> string \<Rightarrow> bool" where
  "matches d text = (if dfa_states d = [] then False else matches_loop (dfa_states d) 0 text)"

text \<open>
  The inner loop of \<^verbatim>\<open>search\<close>: \<^term>\<open>True\<close> when it leaves through
  \<^verbatim>\<open>return start\<close>, \<^term>\<open>False\<close> when it breaks or runs to the end of the text.
\<close>

function search_inner :: "dfa_state list \<Rightarrow> string \<Rightarrow> nat \<Rightarrow> nat \<Rightarrow> bool" where
  "search_inner sts text state i =
     (if i < length text then
        (let c = (of_char (text ! i) :: nat) in
         if c \<ge> ascii_size then False
         else (let next = transitions (sts ! state) ! c in
               if next = no_transition then False
               else if is_accept (sts ! next) then True
               else search_inner sts text next (i + 1)))
      else False)"
  by pat_completeness auto
termination
  by (relation "measure (\<lambda>(s, t, q, i). length t - i)") auto

declare search_inner.simps [simp del]

function search_from :: "dfa_state list \<Rightarrow> string \<Rightarrow> nat \<Rightarrow> nat option" where
  "search_from sts text start =
     (if start < length text then
        (let matched = is_accept (sts ! 0) in
         if search_inner sts text 0 start then Some start
         else if matched then Some start
         else search_from sts text (start + 1))
      else None)"
  by pat_completeness auto
termination
  by (relation "measure (\<lambda>(s, t, i). length t - i)") auto

declare search_from.simps [simp del]

definition dfa_search :: "compiled_dfa \<Rightarrow> string \<Rightarrow> nat option" where
  "dfa_search d text = (if dfa_states d = [] then None else search_from (dfa_states d) text 0)"

subsection \<open>Thompson construction: patching and quantifiers\<close>

datatype error =
  UnexpectedEnd | UnmatchedParenthesis | UnclosedClass | IncompleteEscape | StateLimitExceeded

definition patch :: "nfa_state list \<Rightarrow> nat \<Rightarrow> nat \<Rightarrow> nfa_state list" where
  "patch nfa state target =
     (if state < length nfa then
        (let s = nfa ! state in
         if kind s = Epsilon then
           (if \<not> has_next1 s then nfa[state := s\<lparr>next1 := target\<rparr>]
            else if \<not> has_next2 s then nfa[state := s\<lparr>next2 := target\<rparr>]
            else nfa)
         else
           (if \<not> has_next1 s then nfa[state := s\<lparr>next1 := target\<rparr>] else nfa))
      else nfa)"

definition make_star :: "nfa_state list \<Rightarrow> nfa_fragment \<Rightarrow> nfa_fragment \<times> nfa_state list" where
  "make_star nfa inner =
     (let split = length nfa;
          nfa1 = nfa @ [mk_state Epsilon CHR 0x00 cc_empty (frag_start inner) no_transition];
          nfa2 = patch nfa1 (frag_end inner) split
      in (mk_frag split split, nfa2))"

definition make_plus :: "nfa_state list \<Rightarrow> nfa_fragment \<Rightarrow> nfa_fragment \<times> nfa_state list" where
  "make_plus nfa inner =
     (let split = length nfa;
          nfa1 = nfa @ [mk_state Epsilon CHR 0x00 cc_empty (frag_start inner) no_transition];
          nfa2 = patch nfa1 (frag_end inner) split
      in (mk_frag (frag_start inner) split, nfa2))"

definition make_optional :: "nfa_state list \<Rightarrow> nfa_fragment \<Rightarrow> nfa_fragment \<times> nfa_state list" where
  "make_optional nfa inner =
     (let split = length nfa;
          nfa1 = nfa @ [mk_state Epsilon CHR 0x00 cc_empty (frag_start inner) no_transition];
          join = length nfa1;
          nfa2 = nfa1 @ [mk_state Epsilon CHR 0x00 cc_empty no_transition no_transition];
          nfa3 = nfa2[split := (nfa2 ! split)\<lparr>next2 := join\<rparr>];
          nfa4 = patch nfa3 (frag_end inner) join
      in (mk_frag split join, nfa4))"

subsection \<open>Recursive-descent parser\<close>

text \<open>
  The parser mutates \<^verbatim>\<open>pos\<close> and \<^verbatim>\<open>nfa_states_\<close>; the model threads the pair
  through every call. A thrown \<^verbatim>\<open>std::runtime_error\<close> is \<^term>\<open>Inl\<close> of the
  error. The parsing functions call each other recursively and loop on what the callee
  consumed, so each takes a recursion budget \<open>fuel\<close> that decreases with every call
  and loop iteration; \<^term>\<open>None\<close> means the budget ran out.
\<close>

type_synonym pstate = "nat \<times> nfa_state list"

type_synonym presult = "(error + nfa_fragment \<times> pstate) option"

definition add_escape_to_class :: "char_class \<Rightarrow> char \<Rightarrow> char_class" where
  "add_escape_to_class cc c =
     (if c = CHR ''d'' then cc_set_range cc CHR ''0'' CHR ''9''
      else if c = CHR ''w'' then
        cc_set (cc_set_range (cc_set_range (cc_set_range cc CHR ''a'' CHR ''z'')
                                CHR ''A'' CHR ''Z'') CHR ''0'' CHR ''9'') CHR ''_''
      else if c = CHR ''s'' then
        cc_set (cc_set (cc_set (cc_set (cc_set (cc_set cc CHR '' '') CHR 0x09) CHR 0x0A)
                          CHR 0x0D) CHR 0x0C) CHR 0x0B
      else cc_set cc c)"

text \<open>The \<^verbatim>\<open>while (pos < pattern.size() && pattern[pos] != ']')\<close> loop of a class.\<close>

function class_loop :: "string \<Rightarrow> nat \<Rightarrow> char_class \<Rightarrow> nat \<times> char_class" where
  "class_loop pattern pos cc =
     (if pos < length pattern \<and> pattern ! pos \<noteq> CHR '']'' then
        (let c = pattern ! pos; pos1 = pos + 1 in
         if c = CHR 0x5C \<and> pos1 < length pattern then
           class_loop pattern (pos1 + 1) (add_escape_to_class cc (pattern ! pos1))
         else if pos1 + 1 < length pattern \<and> pattern ! pos1 = CHR ''-'' \<and>
                 pattern ! (pos1 + 1) \<noteq> CHR '']'' then
           class_loop pattern (pos1 + 2) (cc_set_range cc c (pattern ! (pos1 + 1)))
         else class_loop pattern pos1 (cc_set cc c))
      else (pos, cc))"
  by pat_completeness auto
termination
  by (relation "measure (\<lambda>(p, pos, cc). length p - pos)") auto

declare class_loop.simps [simp del]

definition parse_char_class :: "string \<Rightarrow> pstate \<Rightarrow> error + nfa_fragment \<times> pstate" where
  "parse_char_class pattern st =
     (let pos0 = fst st + 1;
          negated = (pos0 < length pattern \<and> pattern ! pos0 = CHR ''^'');
          pos1 = (if negated then pos0 + 1 else pos0);
          (pos2, cc) = class_loop pattern pos1 cc_empty
      in if pos2 \<ge> length pattern then Inl UnclosedClass
         else (let pos3 = pos2 + 1;
                   cc' = (if negated then cc_flip cc else cc);
                   state = length (snd st)
               in Inr (mk_frag state state,
                       (pos3, snd st @ [mk_state ClassMatch CHR 0x00 cc' no_transition no_transition]))))"

definition parse_escape :: "string \<Rightarrow> pstate \<Rightarrow> error + nfa_fragment \<times> pstate" where
  "parse_escape pattern st =
     (let pos = fst st; nfa = snd st in
      if pos \<ge> length pattern then Inl IncompleteEscape
      else (let c = pattern ! pos;
                state = length nfa;
                new = (if c = CHR ''d'' then
                         mk_state ClassMatch CHR 0x00 cc_digit no_transition no_transition
                       else if c = CHR ''D'' then
                         mk_state ClassMatch CHR 0x00 (cc_flip cc_digit) no_transition no_transition
                       else if c = CHR ''w'' then
                         mk_state ClassMatch CHR 0x00 cc_word no_transition no_transition
                       else if c = CHR ''W'' then
                         mk_state ClassMatch CHR 0x00 (cc_flip cc_word) no_transition no_transition
                       else if c = CHR ''s'' then
                         mk_state ClassMatch CHR 0x00 cc_space no_transition no_transition
                       else if c = CHR ''S'' then
                         mk_state ClassMatch CHR 0x00 (cc_flip cc_space) no_transition no_transition
                       else mk_state CharMatch c cc_empty no_transition no_transition)
            in Inr (mk_frag state state, (pos + 1, nfa @ [new]))))"

text \<open>Sequencing of parser steps: an error or an exhausted budget ends the parse.\<close>

definition pbind :: "presult \<Rightarrow> (nfa_fragment \<Rightarrow> pstate \<Rightarrow> presult) \<Rightarrow> presult" where
  "pbind r k =
     (case r of
        None \<Rightarrow> None
      | Some (Inl e) \<Rightarrow> Some (Inl e)
      | Some (Inr (frag, st)) \<Rightarrow> k frag st)"

text \<open>
  The body of the loop of \<^verbatim>\<open>parse_alternation\<close> after the right operand is parsed:
  a split state to both operands, a join state, both ends patched to the join.
\<close>

definition alternation_join ::
  "nfa_fragment \<Rightarrow> nfa_fragment \<Rightarrow> pstate \<Rightarrow> nfa_fragment \<times> pstate" where
  "alternation_join left right st1 =
     (let pos1 = fst st1; nfa1 = snd st1;
          split = length nfa1;
          nfa2 = nfa1 @ [mk_state Epsilon CHR 0x00 cc_empty (frag_start left) (frag_start right)];
          join = length nfa2;
          nfa3 = nfa2 @ [mk_state Epsilon CHR 0x00 cc_empty no_transition no_transition];
          nfa4 = patch nfa3 (frag_end left) join;
          nfa5 = patch nfa4 (frag_end right) join
      in (mk_frag split join, (pos1, nfa5)))"

text \<open>The body of the loop of \<^verbatim>\<open>parse_concatenation\<close> after an atom is parsed.\<close>

definition concatenation_step ::
  "nfa_fragment \<Rightarrow> bool \<Rightarrow> nfa_fragment \<Rightarrow> pstate \<Rightarrow> nfa_fragment \<times> pstate" where
  "concatenation_step result first atom st1 =
     (if first then (atom, st1)
      else (mk_frag (frag_start result) (frag_end atom),
            (fst st1, patch (snd st1) (frag_end result) (frag_start atom))))"

text \<open>The end of \<^verbatim>\<open>parse_concatenation\<close>: an empty concatenation is an epsilon state.\<close>

definition concatenation_end :: "nfa_fragment \<Rightarrow> bool \<Rightarrow> pstate \<Rightarrow> nfa_fragment \<times> pstate" where
  "concatenation_end result first st =
     (if first then
        (let state = length (snd st) in
         (mk_frag state state,
          (fst st, snd st @ [mk_state Epsilon CHR 0x00 cc_empty no_transition no_transition])))
      else (result, st))"

text \<open>\<^verbatim>\<open>parse_quantified\<close> after its atom is parsed.\<close>

definition apply_quantifier :: "string \<Rightarrow> nfa_fragment \<Rightarrow> pstate \<Rightarrow> nfa_fragment \<times> pstate" where
  "apply_quantifier pattern base st1 =
     (let pos = fst st1; nfa = snd st1 in
      if pos \<ge> length pattern then (base, st1)
      else (let quant = pattern ! pos in
            if quant = CHR ''*'' then
              (let (frag, nfa') = make_star nfa base in (frag, (pos + 1, nfa')))
            else if quant = CHR ''+'' then
              (let (frag, nfa') = make_plus nfa base in (frag, (pos + 1, nfa')))
            else if quant = CHR ''?'' then
              (let (frag, nfa') = make_optional nfa base in (frag, (pos + 1, nfa')))
            else (base, st1)))"

text \<open>\<^verbatim>\<open>parse_atom\<close> after the group's inner expression is parsed.\<close>

definition close_group :: "string \<Rightarrow> nfa_fragment \<Rightarrow> pstate \<Rightarrow> presult" where
  "close_group pattern inner st1 =
     (if fst st1 \<ge> length pattern \<or> pattern ! (fst st1) \<noteq> CHR '')''
      then Some (Inl UnmatchedParenthesis)
      else Some (Inr (inner, (fst st1 + 1, snd st1))))"

text \<open>The cases of \<^verbatim>\<open>parse_atom\<close> other than a group; \<open>c\<close> is \<^verbatim>\<open>pattern[pos]\<close>.\<close>

definition simple_atom :: "string \<Rightarrow> char \<Rightarrow> pstate \<Rightarrow> error + nfa_fragment \<times> pstate" where
  "simple_atom pattern c st =
     (let pos = fst st; nfa = snd st; state = length nfa in
      if c = CHR ''['' then parse_char_class pattern st
      else if c = CHR ''.'' then
        Inr (mk_frag state state,
             (pos + 1, nfa @ [mk_state ClassMatch CHR 0x00 cc_any_char no_transition no_transition]))
      else if c = CHR 0x5C then parse_escape pattern (pos + 1, nfa)
      else if c = CHR ''^'' \<or> c = CHR ''$'' then
        Inr (mk_frag state state,
             (pos + 1, nfa @ [mk_state Epsilon CHR 0x00 cc_empty no_transition no_transition]))
      else
        Inr (mk_frag state state,
             (pos + 1, nfa @ [mk_state CharMatch c cc_empty no_transition no_transition])))"

function (sequential) parse_regex :: "nat \<Rightarrow> string \<Rightarrow> pstate \<Rightarrow> presult"
  and parse_alternation :: "nat \<Rightarrow> string \<Rightarrow> pstate \<Rightarrow> presult"
  and alternation_loop :: "nat \<Rightarrow> string \<Rightarrow> nfa_fragment \<Rightarrow> pstate \<Rightarrow> presult"
  and parse_concatenation :: "nat \<Rightarrow> string \<Rightarrow> pstate \<Rightarrow> presult"
  and concatenation_loop :: "nat \<Rightarrow> string \<Rightarrow> nfa_fragment \<Rightarrow> bool \<Rightarrow> pstate \<Rightarrow> presult"
  and parse_quantified :: "nat \<Rightarrow> string \<Rightarrow> pstate \<Rightarrow> presult"
  and parse_atom :: "nat \<Rightarrow> string \<Rightarrow> pstate \<Rightarrow> presult"
where
  "parse_regex 0 pattern st = None"
| "parse_regex (Suc fuel) pattern st = parse_alternation fuel pattern st"
| "parse_alternation 0 pattern st = None"
| "parse_alternation (Suc fuel) pattern st =
     pbind (parse_concatenation fuel pattern st) (alternation_loop fuel pattern)"
| "alternation_loop 0 pattern left st = None"
| "alternation_loop (Suc fuel) pattern left st =
     (if fst st < length pattern \<and> pattern ! (fst st) = CHR ''|'' then
        pbind (parse_concatenation fuel pattern (fst st + 1, snd st))
          (\<lambda>right st1.
             alternation_loop fuel pattern (fst (alternation_join left right st1))
               (snd (alternation_join left right st1)))
      else Some (Inr (left, st)))"
| "parse_concatenation 0 pattern st = None"
| "parse_concatenation (Suc fuel) pattern st =
     concatenation_loop fuel pattern (mk_frag 0 0) True st"
| "concatenation_loop 0 pattern result first st = None"
| "concatenation_loop (Suc fuel) pattern result first st =
     (if fst st < length pattern \<and> pattern ! (fst st) \<noteq> CHR ''|'' \<and>
         pattern ! (fst st) \<noteq> CHR '')'' then
        pbind (parse_quantified fuel pattern st)
          (\<lambda>atom st1.
             concatenation_loop fuel pattern (fst (concatenation_step result first atom st1))
               False (snd (concatenation_step result first atom st1)))
      else Some (Inr (concatenation_end result first st)))"
| "parse_quantified 0 pattern st = None"
| "parse_quantified (Suc fuel) pattern st =
     pbind (parse_atom fuel pattern st)
       (\<lambda>base st1. Some (Inr (apply_quantifier pattern base st1)))"
| "parse_atom 0 pattern st = None"
| "parse_atom (Suc fuel) pattern st =
     (if fst st \<ge> length pattern then Some (Inl UnexpectedEnd)
      else if pattern ! (fst st) = CHR ''('' then
        pbind (parse_regex fuel pattern (fst st + 1, snd st)) (close_group pattern)
      else Some (simple_atom pattern (pattern ! (fst st)) st))"
  by pat_completeness auto
termination
  by (relation "measure (case_sum (case_sum fst (case_sum fst fst))
                                  (case_sum (case_sum fst fst) (case_sum fst fst)))")
     (simp_all only: wf_measure in_measure sum.case fst_conv lessI)

text \<open>
  \<^verbatim>\<open>build_nfa\<close>: parse from position 0 into an empty state vector, then append the
  accept state and patch the end of the top-level fragment to it. The result is the
  state vector and the start state.
\<close>

definition build_nfa :: "nat \<Rightarrow> string \<Rightarrow> (error + nfa_state list \<times> nat) option" where
  "build_nfa fuel pattern =
     (case parse_regex fuel pattern (0, []) of
        None \<Rightarrow> None
      | Some (Inl e) \<Rightarrow> Some (Inl e)
      | Some (Inr (frag, st)) \<Rightarrow>
          (let nfa = snd st;
               accept = length nfa;
               nfa1 = nfa @ [mk_state Accept CHR 0x00 cc_empty no_transition no_transition];
               nfa2 = patch nfa1 (frag_end frag) accept
           in Some (Inr (nfa2, frag_start frag))))"

subsection \<open>Subset construction (\<^verbatim>\<open>epsilon_closure\<close>, \<^verbatim>\<open>build_dfa\<close>)\<close>

text \<open>
  A \<^verbatim>\<open>std::unordered_set<size_type>\<close> is the strictly ascending list of its elements.
  The order in which a range-for or an iterator pair visits the elements is unspecified:
  every place of the source that iterates over a set goes through an iteration policy
  \<open>ord\<close>, which may return the elements in any order.
\<close>

type_synonym state_set = "nat list"

type_synonym iteration_order = "nat list \<Rightarrow> nat list"

definition set_insert :: "nat \<Rightarrow> state_set \<Rightarrow> state_set" where
  "set_insert x S = (if x \<in> set S then S else insort x S)"

text \<open>
  \<^verbatim>\<open>if (state.has_nextN() && states.insert(state.nextN).second) stack.push_back(state.nextN);\<close>
  on the pair of the set and the stack. The head of the list is the back of the vector.
\<close>

definition closure_visit :: "bool \<Rightarrow> nat \<Rightarrow> state_set \<times> nat list \<Rightarrow> state_set \<times> nat list" where
  "closure_visit has target p =
     (if has \<and> target \<notin> set (fst p) then (set_insert target (fst p), target # snd p) else p)"

definition nfa_targets :: "nfa_state list \<Rightarrow> nat set" where
  "nfa_targets nfa = set (map next1 nfa) \<union> set (map next2 nfa)"

lemma set_set_insert: "set (set_insert x S) = insert x (set S)"
  by (simp add: set_insert_def set_insort_key insert_absorb)

lemma closure_visit_measure:
  assumes "target \<in> U" and "finite U"
  shows "2 * card (U - set (fst (closure_visit has target p))) + length (snd (closure_visit has target p))
           \<le> 2 * card (U - set (fst p)) + length (snd p)"
proof (cases "has \<and> target \<notin> set (fst p)")
  case False
  then have "closure_visit has target p = p" by (auto simp: closure_visit_def)
  then show ?thesis by simp
next
  case True
  then have "target \<in> U - set (fst p)" using assms(1) by simp
  moreover have "finite (U - set (fst p))" using assms(2) by simp
  ultimately have pos: "0 < card (U - set (fst p))" by (metis card_gt_0_iff empty_iff)
  have "card (U - insert target (set (fst p))) = card (U - set (fst p)) - 1"
    using assms(1) True by (simp add: card_Diff_insert)
  with pos True show ?thesis
    by (simp add: closure_visit_def set_set_insert)
qed

function closure_loop :: "nfa_state list \<Rightarrow> nat list \<Rightarrow> state_set \<Rightarrow> state_set" where
  "closure_loop nfa [] S = S"
| "closure_loop nfa (s # stack) S =
     (if s \<ge> length nfa then closure_loop nfa stack S
      else if kind (nfa ! s) = Epsilon then
        closure_loop nfa
          (snd (closure_visit (has_next2 (nfa ! s)) (next2 (nfa ! s))
                  (closure_visit (has_next1 (nfa ! s)) (next1 (nfa ! s)) (S, stack))))
          (fst (closure_visit (has_next2 (nfa ! s)) (next2 (nfa ! s))
                  (closure_visit (has_next1 (nfa ! s)) (next1 (nfa ! s)) (S, stack))))
      else closure_loop nfa stack S)"
  by pat_completeness auto
termination
proof (relation "measure (\<lambda>(nfa, stack, S). 2 * card (nfa_targets nfa - set S) + length stack)")
  fix nfa :: "nfa_state list" and s :: nat and stack :: "nat list" and S :: state_set
  assume "\<not> length nfa \<le> s" and "kind (nfa ! s) = Epsilon"
  then have s: "s < length nfa" by simp
  let ?p1 = "closure_visit (has_next1 (nfa ! s)) (next1 (nfa ! s)) (S, stack)"
  let ?p2 = "closure_visit (has_next2 (nfa ! s)) (next2 (nfa ! s)) ?p1"
  have fin: "finite (nfa_targets nfa)" by (simp add: nfa_targets_def)
  have t1: "next1 (nfa ! s) \<in> nfa_targets nfa" and t2: "next2 (nfa ! s) \<in> nfa_targets nfa"
    using s by (simp_all add: nfa_targets_def)
  have "2 * card (nfa_targets nfa - set (fst ?p2)) + length (snd ?p2)
          \<le> 2 * card (nfa_targets nfa - set (fst ?p1)) + length (snd ?p1)"
    using t2 fin by (rule closure_visit_measure)
  also have "\<dots> \<le> 2 * card (nfa_targets nfa - set (fst (S, stack))) + length (snd (S, stack))"
    using t1 fin by (rule closure_visit_measure)
  finally show "((nfa, snd ?p2, fst ?p2), (nfa, s # stack, S))
          \<in> measure (\<lambda>(nfa, stack, S). 2 * card (nfa_targets nfa - set S) + length stack)"
    by simp
qed simp_all

declare closure_loop.simps [simp del]

definition epsilon_closure :: "iteration_order \<Rightarrow> nfa_state list \<Rightarrow> state_set \<Rightarrow> state_set" where
  "epsilon_closure ord nfa states = closure_loop nfa (rev (ord states)) states"

text \<open>\<^verbatim>\<open>std::to_string\<close> of a \<^verbatim>\<open>size_type\<close>, and the key of a set of NFA states.\<close>

definition digit_char :: "nat \<Rightarrow> char" where
  "digit_char d = char_of (48 + d)"

function to_string :: "nat \<Rightarrow> string" where
  "to_string n = (if n < 10 then [digit_char n] else to_string (n div 10) @ [digit_char (n mod 10)])"
  by pat_completeness auto
termination
  by (relation "measure (\<lambda>n. n)") auto

declare to_string.simps [simp del]

definition set_to_key :: "iteration_order \<Rightarrow> state_set \<Rightarrow> string" where
  "set_to_key ord s = concat (map (\<lambda>x. to_string x @ '','') (sort (ord s)))"

text \<open>The loops that set \<^verbatim>\<open>is_accept\<close>: is there an accept state in the set.\<close>

definition accepting :: "iteration_order \<Rightarrow> nfa_state list \<Rightarrow> state_set \<Rightarrow> bool" where
  "accepting ord nfa s = list_ex (\<lambda>q. q < length nfa \<and> kind (nfa ! q) = Accept) (ord s)"

definition nfa_matches :: "nfa_state \<Rightarrow> nat \<Rightarrow> bool" where
  "nfa_matches state c =
     (if kind state = CharMatch then (of_char (match_char state) :: nat) = c
      else if kind state = ClassMatch then cc_test (match_class state) c
      else False)"

text \<open>The inner \<^verbatim>\<open>for (auto s : current)\<close> loop that collects \<^verbatim>\<open>next_set\<close>.\<close>

definition next_set_of :: "iteration_order \<Rightarrow> nfa_state list \<Rightarrow> state_set \<Rightarrow> nat \<Rightarrow> state_set" where
  "next_set_of ord nfa current c =
     fold (\<lambda>s next_set.
             if s \<ge> length nfa then next_set
             else if nfa_matches (nfa ! s) c \<and> has_next1 (nfa ! s)
                  then set_insert (next1 (nfa ! s)) next_set
                  else next_set)
          (ord current) []"

text \<open>
  The state of \<^verbatim>\<open>build_dfa\<close>: the member \<^verbatim>\<open>states_\<close> and the locals
  \<^verbatim>\<open>state_map\<close> and \<^verbatim>\<open>worklist\<close>.
\<close>

record build_state =
  bs_states :: "dfa_state list"
  state_map :: "string \<rightharpoonup> nat"
  worklist :: "state_set list"

definition set_transition :: "build_state \<Rightarrow> nat \<Rightarrow> nat \<Rightarrow> nat \<Rightarrow> build_state" where
  "set_transition b q c target =
     b\<lparr>bs_states := (bs_states b)
          [q := (bs_states b ! q)\<lparr>transitions := (transitions (bs_states b ! q))[c := target]\<rparr>]\<rparr>"

text \<open>The body of \<^verbatim>\<open>for (size_type c = 0; c < config::ascii_size; ++c)\<close>.\<close>

definition byte_step ::
  "iteration_order \<Rightarrow> nfa_state list \<Rightarrow> state_set \<Rightarrow> nat \<Rightarrow> nat \<Rightarrow> build_state \<Rightarrow> build_state" where
  "byte_step ord nfa current current_dfa c b =
     (let next_set = next_set_of ord nfa current c in
      if next_set = [] then b
      else (let closed = epsilon_closure ord nfa next_set;
                key = set_to_key ord closed
            in case state_map b key of
                 None \<Rightarrow>
                   (let next_dfa = length (bs_states b);
                        b1 = b\<lparr>state_map := (state_map b)(key \<mapsto> next_dfa),
                               bs_states := bs_states b @
                                 [new_dfa_state\<lparr>is_accept := accepting ord nfa closed\<rparr>],
                               worklist := worklist b @ [closed]\<rparr>
                    in set_transition b1 current_dfa c next_dfa)
               | Some next_dfa \<Rightarrow> set_transition b current_dfa c next_dfa))"

text \<open>
  One pass of the worklist loop after the limit check. \<^verbatim>\<open>state_map[key]\<close> is
  \<^verbatim>\<open>operator[]\<close>: a missing key is inserted with the value 0.
\<close>

definition expand_state :: "iteration_order \<Rightarrow> nfa_state list \<Rightarrow> build_state \<Rightarrow> nat \<Rightarrow> build_state" where
  "expand_state ord nfa b processed =
     (let current = worklist b ! processed;
          key = set_to_key ord current;
          current_dfa = (case state_map b key of Some q \<Rightarrow> q | None \<Rightarrow> 0);
          b0 = (case state_map b key of Some q \<Rightarrow> b | None \<Rightarrow> b\<lparr>state_map := (state_map b)(key \<mapsto> 0)\<rparr>)
      in fold (byte_step ord nfa current current_dfa) [0..<ascii_size] b0)"

lemma byte_step_growth:
  "\<exists>k. length (bs_states (byte_step ord nfa cur q c b)) = length (bs_states b) + k \<and>
       length (worklist (byte_step ord nfa cur q c b)) = length (worklist b) + k"
proof (cases "next_set_of ord nfa cur c = []")
  case True
  then show ?thesis by (simp add: byte_step_def)
next
  case False
  show ?thesis
  proof (cases "state_map b (set_to_key ord (epsilon_closure ord nfa (next_set_of ord nfa cur c)))")
    case None
    with False have
      "length (bs_states (byte_step ord nfa cur q c b)) = length (bs_states b) + 1 \<and>
       length (worklist (byte_step ord nfa cur q c b)) = length (worklist b) + 1"
      by (simp add: byte_step_def set_transition_def Let_def)
    then show ?thesis by blast
  next
    case (Some t)
    with False show ?thesis by (simp add: byte_step_def set_transition_def Let_def)
  qed
qed

lemma fold_byte_step_growth:
  "\<exists>k. length (bs_states (fold (byte_step ord nfa cur q) cs b)) = length (bs_states b) + k \<and>
       length (worklist (fold (byte_step ord nfa cur q) cs b)) = length (worklist b) + k"
proof (induction cs arbitrary: b)
  case Nil
  then show ?case by simp
next
  case (Cons c cs)
  from byte_step_growth[of ord nfa cur q c b] obtain k1 where
    k1: "length (bs_states (byte_step ord nfa cur q c b)) = length (bs_states b) + k1"
        "length (worklist (byte_step ord nfa cur q c b)) = length (worklist b) + k1"
    by blast
  from Cons.IH[of "byte_step ord nfa cur q c b"] obtain k2 where
    k2: "length (bs_states (fold (byte_step ord nfa cur q) cs (byte_step ord nfa cur q c b)))
           = length (bs_states (byte_step ord nfa cur q c b)) + k2"
        "length (worklist (fold (byte_step ord nfa cur q) cs (byte_step ord nfa cur q c b)))
           = length (worklist (byte_step ord nfa cur q c b)) + k2"
    by blast
  from k1 k2 show ?case by (intro exI[of _ "k1 + k2"]) simp
qed

lemma expand_state_growth:
  "\<exists>k. length (bs_states (expand_state ord nfa b p)) = length (bs_states b) + k \<and>
       length (worklist (expand_state ord nfa b p)) = length (worklist b) + k"
proof -
  let ?key = "set_to_key ord (worklist b ! p)"
  let ?b0 = "case state_map b ?key of Some q \<Rightarrow> b | None \<Rightarrow> b\<lparr>state_map := (state_map b)(?key \<mapsto> 0)\<rparr>"
  have "length (bs_states ?b0) = length (bs_states b)" "length (worklist ?b0) = length (worklist b)"
    by (simp_all split: option.splits)
  with fold_byte_step_growth[of ord nfa "worklist b ! p"
        "case state_map b ?key of Some q \<Rightarrow> q | None \<Rightarrow> 0" "[0..<ascii_size]" ?b0]
  show ?thesis by (simp add: expand_state_def Let_def)
qed

text \<open>
  The worklist loop. The limit check comes first in every pass; when it throws, the
  result carries the state the partly built automaton is in at that moment.
\<close>

function build_loop ::
  "iteration_order \<Rightarrow> nat \<Rightarrow> nfa_state list \<Rightarrow> build_state \<Rightarrow> nat \<Rightarrow> error \<times> build_state + build_state" where
  "build_loop ord max_states nfa b processed =
     (if processed < length (worklist b) then
        (if length (bs_states b) > max_states then Inl (StateLimitExceeded, b)
         else build_loop ord max_states nfa (expand_state ord nfa b processed) (processed + 1))
      else Inr b)"
  by pat_completeness auto
termination
proof (relation "measure (\<lambda>(ord, cap, nfa, b, p).
          if length (bs_states b) > cap then 0
          else 1 + (cap - length (bs_states b)) + (length (worklist b) - p))")
  fix ord :: iteration_order and cap :: nat and nfa :: "nfa_state list"
    and b :: build_state and p :: nat
  assume p: "p < length (worklist b)" and c: "\<not> cap < length (bs_states b)"
  from expand_state_growth[of ord nfa b p] obtain k where
    k: "length (bs_states (expand_state ord nfa b p)) = length (bs_states b) + k"
       "length (worklist (expand_state ord nfa b p)) = length (worklist b) + k"
    by blast
  show "((ord, cap, nfa, expand_state ord nfa b p, p + 1), (ord, cap, nfa, b, p))
          \<in> measure (\<lambda>(ord, cap, nfa, b, p).
                if length (bs_states b) > cap then 0
                else 1 + (cap - length (bs_states b)) + (length (worklist b) - p))"
    using p c k by auto
qed simp

declare build_loop.simps [simp del]

definition build_dfa ::
  "iteration_order \<Rightarrow> nat \<Rightarrow> nfa_state list \<Rightarrow> nat \<Rightarrow> error \<times> build_state + build_state" where
  "build_dfa ord max_states nfa start =
     (if nfa = [] then Inr \<lparr>bs_states = [], state_map = Map.empty, worklist = []\<rparr>
      else (let start_set = epsilon_closure ord nfa [start];
                b = \<lparr>bs_states = [new_dfa_state\<lparr>is_accept := accepting ord nfa start_set\<rparr>],
                     state_map = [set_to_key ord start_set \<mapsto> 0],
                     worklist = [start_set]\<rparr>
            in build_loop ord max_states nfa b 0))"

subsection \<open>Compilation and the regex handle (\<^verbatim>\<open>pattern.hpp\<close>)\<close>

text \<open>
  The constructor \<^verbatim>\<open>compiled_dfa(pattern)\<close>: \<^verbatim>\<open>build_nfa\<close>, then
  \<^verbatim>\<open>build_dfa\<close>. An exception leaves the constructor, so no object exists then.
\<close>

definition compile ::
  "iteration_order \<Rightarrow> nat \<Rightarrow> nat \<Rightarrow> string \<Rightarrow> (error + compiled_dfa) option" where
  "compile ord max_states fuel pattern =
     (case build_nfa fuel pattern of
        None \<Rightarrow> None
      | Some (Inl e) \<Rightarrow> Some (Inl e)
      | Some (Inr (nfa, start)) \<Rightarrow>
          (case build_dfa ord max_states nfa start of
             Inl (e, b) \<Rightarrow> Some (Inl e)
           | Inr b \<Rightarrow> Some (Inr \<lparr>dfa_states = bs_states b, nfa_states = nfa, nfa_start = start\<rparr>)))"

text \<open>
  \<^verbatim>\<open>regex_pattern\<close> holds the source and a shared pointer to the automaton, which is
  null only in a default-constructed handle.
\<close>

record regex_pattern =
  source :: string
  dfa :: "compiled_dfa option"

definition compile_regex :: "iteration_order \<Rightarrow> nat \<Rightarrow> string \<Rightarrow> (error + regex_pattern) option" where
  "compile_regex ord fuel pattern =
     (case compile ord max_dfa_states fuel pattern of
        None \<Rightarrow> None
      | Some (Inl e) \<Rightarrow> Some (Inl e)
      | Some (Inr d) \<Rightarrow> Some (Inr \<lparr>source = pattern, dfa = Some d\<rparr>))"

definition regex_search :: "regex_pattern \<Rightarrow> string \<Rightarrow> nat option" where
  "regex_search r text = (case dfa r of None \<Rightarrow> None | Some d \<Rightarrow> dfa_search d text)"

definition regex_matches :: "regex_pattern \<Rightarrow> string \<Rightarrow> bool" where
  "regex_matches r text = (case dfa r of None \<Rightarrow> False | Some d \<Rightarrow> matches d text)"

definition state_count :: "regex_pattern \<Rightarrow> nat" where
  "state_count r = (case dfa r of None \<Rightarrow> 0 | Some d \<Rightarrow> length (dfa_states d))"

text \<open>The iteration policy that visits the elements in ascending order.\<close>

definition ascending :: iteration_order where
  "ascending xs = xs"

section \<open>Specification vocabulary for the literal search\<close>

text \<open>
  \<open>pre_suf p s r\<close>: the prefix of \<open>p\<close> of length \<open>r\<close> is a suffix of \<open>s\<close>.
  \<open>lps p s j\<close>: \<open>j\<close> is the greatest such length; \<open>kmp_state p s j\<close>: the greatest
  one below \<open>length p\<close>, which is the value the KMP loops keep in \<open>j\<close> after reading \<open>s\<close>.
  \<open>longest_border p i b\<close>: \<open>b\<close> is the length of the longest proper prefix of
  \<open>p[0..i]\<close> that is also a suffix of it. \<open>occurs_at T P o\<close>: \<open>P\<close> occurs in \<open>T\<close>
  at offset \<open>o\<close>.
\<close>

definition pre_suf :: "'a list \<Rightarrow> 'a list \<Rightarrow> nat \<Rightarrow> bool" where
  "pre_suf p s r \<longleftrightarrow> r \<le> length p \<and> suffix (take r p) s"

definition lps :: "'a list \<Rightarrow> 'a list \<Rightarrow> nat \<Rightarrow> bool" where
  "lps p s j \<longleftrightarrow> pre_suf p s j \<and> (\<forall>r. pre_suf p s r \<longrightarrow> r \<le> j)"

definition kmp_state :: "'a list \<Rightarrow> 'a list \<Rightarrow> nat \<Rightarrow> bool" where
  "kmp_state p s j \<longleftrightarrow>
     j < length p \<and> pre_suf p s j \<and> (\<forall>r. r < length p \<longrightarrow> pre_suf p s r \<longrightarrow> r \<le> j)"

definition longest_border :: "'a list \<Rightarrow> nat \<Rightarrow> nat \<Rightarrow> bool" where
  "longest_border p i b \<longleftrightarrow>
     b \<le> i \<and> suffix (take b p) (take (Suc i) p) \<and>
     (\<forall>r. r \<le> i \<longrightarrow> suffix (take r p) (take (Suc i) p) \<longrightarrow> r \<le> b)"

definition table_upto :: "'a list \<Rightarrow> nat list \<Rightarrow> nat \<Rightarrow> bool" where
  "table_upto p F n \<longleftrightarrow> (\<forall>q<n. longest_border p q (F ! q))"

definition occurs_at :: "'a list \<Rightarrow> 'a list \<Rightarrow> nat \<Rightarrow> bool" where
  "occurs_at T P k \<longleftrightarrow> k + length P \<le> length T \<and> take (length P) (drop k T) = P"

text \<open>
  \<open>first_match T P r\<close>: \<open>r\<close> is the leftmost occurrence of \<open>P\<close> in \<open>T\<close>, or
  \<^term>\<open>None\<close> when there is none. \<open>first_index buf c lo hi r\<close>: the same for the byte
  \<open>c\<close> within \<open>buf[lo..hi)\<close>. \<open>mismatch_at T a P len k\<close>: \<open>k\<close> is the length of the
  longest common prefix of \<open>T[a..a+len)\<close> and \<open>P[0..len)\<close>.
\<close>

definition first_match :: "'a list \<Rightarrow> 'a list \<Rightarrow> nat option \<Rightarrow> bool" where
  "first_match T P r \<longleftrightarrow>
     (case r of
        Some k \<Rightarrow> occurs_at T P k \<and> (\<forall>k'<k. \<not> occurs_at T P k')
      | None \<Rightarrow> (\<forall>k. \<not> occurs_at T P k))"

definition first_index :: "'a list \<Rightarrow> 'a \<Rightarrow> nat \<Rightarrow> nat \<Rightarrow> nat option \<Rightarrow> bool" where
  "first_index buf c lo hi r \<longleftrightarrow>
     (case r of
        Some k \<Rightarrow> lo \<le> k \<and> k < hi \<and> buf ! k = c \<and> (\<forall>k'. lo \<le> k' \<and> k' < k \<longrightarrow> buf ! k' \<noteq> c)
      | None \<Rightarrow> (\<forall>k. lo \<le> k \<and> k < hi \<longrightarrow> buf ! k \<noteq> c))"

definition mismatch_at :: "'a list \<Rightarrow> nat \<Rightarrow> 'a list \<Rightarrow> nat \<Rightarrow> nat \<Rightarrow> bool" where
  "mismatch_at T a P len k \<longleftrightarrow>
     k \<le> len \<and> (\<forall>i<k. T ! (a + i) = P ! i) \<and> (k < len \<longrightarrow> T ! (a + k) \<noteq> P ! k)"

section \<open>Specification vocabulary for the regex engine\<close>

text \<open>
  One step of the automaton from state \<open>q\<close> on the byte \<open>c\<close>: no successor on a
  non-ASCII byte or on the dead sentinel. \<open>dfa_run\<close> steps through a text from a state
  and gives the state reached, or \<^term>\<open>None\<close> as soon as a step has no successor.
\<close>

definition dfa_step :: "dfa_state list \<Rightarrow> nat \<Rightarrow> char \<Rightarrow> nat option" where
  "dfa_step sts q c =
     (if (of_char c :: nat) \<ge> ascii_size then None
      else if transitions (sts ! q) ! of_char c = no_transition then None
      else Some (transitions (sts ! q) ! of_char c))"

definition dfa_run :: "dfa_state list \<Rightarrow> nat \<Rightarrow> string \<Rightarrow> nat option" where
  "dfa_run sts q text = foldl (\<lambda>r c. Option.bind r (\<lambda>q'. dfa_step sts q' c)) (Some q) text"




text \<open>
  \<open>ext_ok p x f\<close>: whenever the parsing function \<open>f\<close> succeeds on the pattern \<open>p\<close>
  from a position inside it, it stops inside \<open>p\<close> and does exactly the same on the
  longer pattern \<open>p @ x\<close>.
\<close>

definition ext_ok :: "string \<Rightarrow> string \<Rightarrow> (string \<Rightarrow> pstate \<Rightarrow> presult) \<Rightarrow> bool" where
  "ext_ok p x f \<longleftrightarrow>
     (\<forall>st frag st'. fst st \<le> length p \<and> f p st = Some (Inr (frag, st')) \<longrightarrow>
        fst st' \<le> length p \<and> f (p @ x) st = Some (Inr (frag, st')))"


section \<open>Sample automata\<close>

text \<open>
  The NFAs that \<^verbatim>\<open>build_nfa\<close> produces for the sources \<^verbatim>\<open>a\<close> and \<^verbatim>\<open>a*\<close>
  (start states 0 and 1), and the automata that the subset construction makes of them.
\<close>

definition nfa_a :: "nfa_state list" where
  "nfa_a = [mk_state CharMatch CHR ''a'' cc_empty 1 no_transition,
            mk_state Accept CHR 0x00 cc_empty no_transition no_transition]"

definition nfa_a_star :: "nfa_state list" where
  "nfa_a_star = [mk_state CharMatch CHR ''a'' cc_empty 1 no_transition,
                 mk_state Epsilon CHR 0x00 cc_empty 0 2,
                 mk_state Accept CHR 0x00 cc_empty no_transition no_transition]"

definition built_a :: build_state where
  "built_a =
     \<lparr>bs_states =
        [\<lparr>transitions = (replicate ascii_size no_transition)[97 := 1], is_accept = False\<rparr>,
         \<lparr>transitions = replicate ascii_size no_transition, is_accept = True\<rparr>],
      state_map = [''0,'' \<mapsto> 0, ''1,'' \<mapsto> 1],
      worklist = [[0], [1]]\<rparr>"

definition built_a_star :: build_state where
  "built_a_star =
     \<lparr>bs_states =
        [\<lparr>transitions = (replicate ascii_size no_transition)[97 := 0], is_accept = True\<rparr>],
      state_map = [''0,1,2,'' \<mapsto> 0],
      worklist = [[0, 1, 2]]\<rparr>"

definition dfa_a_star :: compiled_dfa where
  "dfa_a_star = \<lparr>dfa_states = bs_states built_a_star, nfa_states = nfa_a_star, nfa_start = 1\<rparr>"

definition dfa_a :: compiled_dfa where
  "dfa_a = \<lparr>dfa_states = bs_states built_a, nfa_states = nfa_a, nfa_start = 0\<rparr>"

section \<open>Correctness of the failure function\<close>

lemma pre_suf_0: "pre_suf p s 0"
  by (simp add: pre_suf_def)

lemma pre_suf_length: "pre_suf p s r \<Longrightarrow> r \<le> length s"
  unfolding pre_suf_def using suffix_length_le by fastforce

lemma pre_suf_Suc_snoc:
  "pre_suf p (s @ [x]) (Suc r) \<longleftrightarrow> r < length p \<and> pre_suf p s r \<and> p ! r = x"
proof (cases "r < length p")
  case True
  then have "take (Suc r) p = take r p @ [p ! r]"
    by (rule take_Suc_conv_app_nth)
  then have "suffix (take (Suc r) p) (s @ [x]) \<longleftrightarrow> p ! r = x \<and> suffix (take r p) s"
    by (simp only: snoc_suffix_snoc)
  with True show ?thesis
    unfolding pre_suf_def by auto
next
  case False
  then show ?thesis unfolding pre_suf_def by auto
qed

lemma pre_suf_snoc:
  assumes "0 < r"
  shows "pre_suf p (s @ [x]) r \<longleftrightarrow> r \<le> length p \<and> pre_suf p s (r - 1) \<and> p ! (r - 1) = x"
proof -
  from assms obtain r' where r: "r = Suc r'" by (cases r) auto
  show ?thesis unfolding r using pre_suf_Suc_snoc[of p s x r'] by auto
qed

lemma pre_suf_via:
  assumes "pre_suf p s j" and "r \<le> j"
  shows "pre_suf p s r \<longleftrightarrow> pre_suf p (take j p) r"
proof
  assume "pre_suf p s r"
  with assms have "suffix (take r p) s" "suffix (take j p) s"
    "length (take r p) \<le> length (take j p)"
    unfolding pre_suf_def by auto
  then have "suffix (take r p) (take j p)"
    by (rule suffix_length_suffix)
  with assms show "pre_suf p (take j p) r"
    by (simp add: pre_suf_def)
next
  assume "pre_suf p (take j p) r"
  with assms show "pre_suf p s r"
    unfolding pre_suf_def using suffix_order.trans by blast
qed

lemma border_iff_tl:
  assumes "q < length p"
  shows "r \<le> q \<and> suffix (take r p) (take (Suc q) p) \<longleftrightarrow> pre_suf p (take q (tl p)) r"
proof -
  from assms obtain a p' where p: "p = a # p'" by (cases p) auto
  have len: "length (take q p') = q" using assms p by simp
  show ?thesis
  proof
    assume a: "r \<le> q \<and> suffix (take r p) (take (Suc q) p)"
    then have "suffix (take r p) (a # take q p')" by (simp add: p)
    moreover have "take r p \<noteq> a # take q p'"
    proof
      assume "take r p = a # take q p'"
      then have "length (take r p) = Suc q" using len by simp
      moreover have "length (take r p) \<le> r" by simp
      ultimately show False using a by linarith
    qed
    ultimately have "suffix (take r p) (take q p')" by (simp add: suffix_Cons)
    with a assms show "pre_suf p (take q (tl p)) r" by (simp add: pre_suf_def p)
  next
    assume a: "pre_suf p (take q (tl p)) r"
    then have "r \<le> q" using pre_suf_length[OF a] p assms by simp
    moreover from a have "suffix (take r p) (take (Suc q) p)"
      by (simp add: pre_suf_def p suffix_Cons)
    ultimately show "r \<le> q \<and> suffix (take r p) (take (Suc q) p)" by simp
  qed
qed

lemma fallback_correct:
  assumes "table_upto p F k" and "k < length p" and "pre_suf p s k"
    and "\<forall>q. q < length p \<longrightarrow> pre_suf p s q \<longrightarrow> k < q \<longrightarrow> p ! q \<noteq> x"
  shows "\<exists>k'. fallback p F x k = Some k' \<and> k' \<le> k \<and> pre_suf p s k' \<and>
           (\<forall>q. q < length p \<longrightarrow> pre_suf p s q \<longrightarrow> k' < q \<longrightarrow> p ! q \<noteq> x) \<and>
           (k' = 0 \<or> p ! k' = x)"
  using assms
proof (induction k rule: less_induct)
  case (less k)
  show ?case
  proof (cases "k > 0 \<and> x \<noteq> p ! k")
    case False
    then have "fallback p F x k = Some k" by (subst fallback.simps) auto
    with False less.prems show ?thesis by auto
  next
    case True
    define k' where "k' = F ! (k - 1)"
    have lb: "longest_border p (k - 1) k'"
      using less.prems(1) True by (simp add: table_upto_def k'_def)
    have k'_lt: "k' < k" using lb True by (auto simp: longest_border_def)
    have sk: "Suc (k - 1) = k" using True by simp
    have ps_k': "pre_suf p (take k p) k'"
      using lb k'_lt less.prems(2) by (simp add: longest_border_def pre_suf_def sk)
    have 1: "table_upto p F k'" using less.prems(1) k'_lt by (simp add: table_upto_def)
    have 2: "k' < length p" using k'_lt less.prems(2) by simp
    have 3: "pre_suf p s k'"
      using pre_suf_via[OF less.prems(3), of k'] k'_lt ps_k' by simp
    have 4: "\<forall>q. q < length p \<longrightarrow> pre_suf p s q \<longrightarrow> k' < q \<longrightarrow> p ! q \<noteq> x"
    proof (intro allI impI)
      fix q assume q: "q < length p" "pre_suf p s q" "k' < q"
      consider "k < q" | "q = k" | "q < k" by linarith
      then show "p ! q \<noteq> x"
      proof cases
        case 1 with less.prems(4) q show ?thesis by blast
      next
        case 2 with True show ?thesis by auto
      next
        case 3
        then have "pre_suf p (take k p) q"
          using pre_suf_via[OF less.prems(3), of q] q by simp
        then have "suffix (take q p) (take (Suc (k - 1)) p)" "q \<le> k - 1"
          using 3 by (auto simp: pre_suf_def sk)
        with lb have "q \<le> k'" by (simp add: longest_border_def)
        with q show ?thesis by simp
      qed
    qed
    from less.IH[OF k'_lt 1 2 3 4] obtain k'' where
      r: "fallback p F x k' = Some k''" "k'' \<le> k'" "pre_suf p s k''"
         "\<forall>q. q < length p \<longrightarrow> pre_suf p s q \<longrightarrow> k'' < q \<longrightarrow> p ! q \<noteq> x"
         "k'' = 0 \<or> p ! k'' = x"
      by blast
    have "fallback p F x k = Some k''"
      using True r(1) by (subst fallback.simps) (simp add: k'_def)
    with r k'_lt show ?thesis by auto
  qed
qed

lemma pre_suf_snocD:
  assumes "pre_suf p (s @ [x]) r" and "0 < r"
  shows "r - 1 < length p \<and> pre_suf p s (r - 1) \<and> p ! (r - 1) = x"
proof -
  from assms pre_suf_snoc[OF assms(2), of p s x]
  have "r \<le> length p" "pre_suf p s (r - 1)" "p ! (r - 1) = x" by blast+
  with assms(2) show ?thesis by linarith
qed

lemma kmp_step:
  assumes "table_upto p F j" and "kmp_state p s j"
  shows "\<exists>k. fallback p F x j = Some k \<and> k < length p \<and>
           lps p (s @ [x]) (if x = p ! k then k + 1 else k)"
proof -
  from assms(2) have j: "j < length p" "pre_suf p s j"
    and mx: "\<forall>r. r < length p \<longrightarrow> pre_suf p s r \<longrightarrow> r \<le> j"
    unfolding kmp_state_def by blast+
  have "\<forall>q. q < length p \<longrightarrow> pre_suf p s q \<longrightarrow> j < q \<longrightarrow> p ! q \<noteq> x"
    using mx leD by blast
  from fallback_correct[OF assms(1) j this] obtain k where
    k: "fallback p F x j = Some k" "k \<le> j" "pre_suf p s k"
       "\<forall>q. q < length p \<longrightarrow> pre_suf p s q \<longrightarrow> k < q \<longrightarrow> p ! q \<noteq> x"
       "k = 0 \<or> p ! k = x"
    by blast
  have klt: "k < length p" using k(2) j(1) by simp
  have "lps p (s @ [x]) (if x = p ! k then k + 1 else k)"
  proof (cases "x = p ! k")
    case True
    have "pre_suf p (s @ [x]) (k + 1)"
      using pre_suf_snoc[of "k + 1" p s x] klt k(3) True by simp
    moreover have "r \<le> k + 1" if "pre_suf p (s @ [x]) r" for r
    proof (rule ccontr)
      assume "\<not> r \<le> k + 1"
      then have r: "0 < r" "k < r - 1" by linarith+
      from pre_suf_snocD[OF that r(1)] k(4) r(2) show False by blast
    qed
    ultimately show ?thesis using True unfolding lps_def by simp
  next
    case False
    with k(5) have k0: "k = 0" by blast
    have "r \<le> 0" if "pre_suf p (s @ [x]) r" for r
    proof (rule ccontr)
      assume "\<not> r \<le> 0"
      then have r: "0 < r" by linarith
      note * = pre_suf_snocD[OF that r]
      show False
      proof (cases "r - 1 = 0")
        case True with * False k0 show ?thesis by simp
      next
        case F: False
        then have "k < r - 1" using k0 by linarith
        with k(4) * show ?thesis by blast
      qed
    qed
    with False k0 show ?thesis unfolding lps_def using pre_suf_0 by auto
  qed
  with k(1) klt show ?thesis by blast
qed


lemma longest_border_iff_lps:
  assumes "q < length p"
  shows "longest_border p q b \<longleftrightarrow> lps p (take q (tl p)) b"
  unfolding longest_border_def lps_def
  using border_iff_tl[OF assms] by blast

lemma lps_kmp_state: "lps p s j \<Longrightarrow> j < length p \<Longrightarrow> kmp_state p s j"
  unfolding lps_def kmp_state_def by blast

lemma table_upto_mono: "table_upto p F n \<Longrightarrow> k \<le> n \<Longrightarrow> table_upto p F k"
  unfolding table_upto_def by simp

lemma table_upto_update:
  assumes "table_upto p F i" and "longest_border p i b" and "i < length F"
  shows "table_upto p (F[i := b]) (Suc i)"
  unfolding table_upto_def
proof (intro allI impI)
  fix q assume "q < Suc i"
  then consider "q < i" | "q = i" by linarith
  then show "longest_border p q (F[i := b] ! q)"
  proof cases
    case 1 with assms(1) show ?thesis by (simp add: table_upto_def)
  next
    case 2 with assms(2,3) show ?thesis by simp
  qed
qed

lemma take_tl_snoc:
  assumes "0 < i" and "i < length p"
  shows "take i (tl p) = take (i - 1) (tl p) @ [p ! i]"
proof -
  from assms obtain i' where i: "i = Suc i'" by (cases i) auto
  have "i' < length (tl p)" using assms i by simp
  then have "take (Suc i') (tl p) = take i' (tl p) @ [tl p ! i']"
    by (rule take_Suc_conv_app_nth)
  moreover have "tl p ! i' = p ! Suc i'"
    using \<open>i' < length (tl p)\<close> by (rule nth_tl)
  ultimately show ?thesis by (simp add: i)
qed

lemma failure_loop_correct:
  assumes "0 < i" and "i \<le> length p" and "length F = length p"
    and "table_upto p F i" and "lps p (take (i - 1) (tl p)) k"
  shows "\<exists>F'. failure_loop p i k F = Some F' \<and> length F' = length p \<and>
           table_upto p F' (length p)"
  using assms
proof (induction "length p - i" arbitrary: i k F)
  case 0
  then have "i = length p" by simp
  then have "failure_loop p i k F = Some F"
    by (subst failure_loop.simps) simp
  with 0 \<open>i = length p\<close> show ?case by simp
next
  case (Suc d)
  then have ilt: "i < length p" by linarith
  let ?s = "take (i - 1) (tl p)"
  have "k \<le> length ?s" using Suc.prems(5) pre_suf_length unfolding lps_def by blast
  then have kle: "k \<le> i - 1" by simp
  then have klt: "k < length p" using ilt by linarith
  have st: "kmp_state p ?s k" using Suc.prems(5) klt by (rule lps_kmp_state)
  have tk: "table_upto p F k" using Suc.prems(4) kle by (auto intro: table_upto_mono)
  from kmp_step[OF tk st, of "p ! i"] obtain k1 where
    k1: "fallback p F (p ! i) k = Some k1" "k1 < length p"
        "lps p (?s @ [p ! i]) (if p ! i = p ! k1 then k1 + 1 else k1)"
    by blast
  define k2 where "k2 = (if p ! i = p ! k1 then k1 + 1 else k1)"
  have l2: "lps p (take i (tl p)) k2"
    using k1(3) take_tl_snoc[OF Suc.prems(1) ilt] by (simp add: k2_def)
  then have lb: "longest_border p i k2"
    using longest_border_iff_lps[OF ilt] by simp
  have t2: "table_upto p (F[i := k2]) (Suc i)"
    using Suc.prems(4) lb ilt Suc.prems(3) by (intro table_upto_update) auto
  have "\<exists>F'. failure_loop p (Suc i) k2 (F[i := k2]) = Some F' \<and> length F' = length p \<and>
           table_upto p F' (length p)"
  proof (rule Suc.hyps(1))
    show "d = length p - Suc i" using Suc.hyps(2) by linarith
    show "0 < Suc i" by simp
    show "Suc i \<le> length p" using ilt by simp
    show "length (F[i := k2]) = length p" using Suc.prems(3) by simp
    show "table_upto p (F[i := k2]) (Suc i)" by (rule t2)
    show "lps p (take (Suc i - 1) (tl p)) k2" using l2 by simp
  qed
  moreover have "failure_loop p i k F = failure_loop p (Suc i) k2 (F[i := k2])"
    using ilt k1(1) by (subst failure_loop.simps) (simp add: k2_def Let_def)
  ultimately show ?case by simp
qed

lemma lps_Nil: "lps p [] 0"
  unfolding lps_def using pre_suf_0 pre_suf_length by fastforce

lemma compute_failure_table:
  "\<exists>F. compute_failure p = Some F \<and> length F = length p \<and> table_upto p F (length p)"
proof (cases "p = []")
  case True
  then show ?thesis by (simp add: compute_failure_def table_upto_def)
next
  case False
  let ?F = "replicate (length p) (0::nat)"
  have lb0: "longest_border p 0 0" by (simp add: longest_border_def)
  have "table_upto p ?F 1"
    using False lb0 by (simp add: table_upto_def)
  moreover have "lps p (take (1 - 1) (tl p)) 0" using lps_Nil by simp
  moreover have "1 \<le> length p" using False by (cases p) auto
  ultimately have "\<exists>F'. failure_loop p 1 0 ?F = Some F' \<and> length F' = length p \<and>
           table_upto p F' (length p)"
    by (intro failure_loop_correct) auto
  with False show ?thesis by (simp add: compute_failure_def Let_def)
qed

lemma strict_prefix_take_iff:
  assumes "i < length p"
  shows "strict_prefix w (take (Suc i) p) \<longleftrightarrow> (\<exists>r\<le>i. w = take r p)"
proof
  assume a: "strict_prefix w (take (Suc i) p)"
  then have pw: "prefix w (take (Suc i) p)" and ne: "w \<noteq> take (Suc i) p"
    by (auto simp: strict_prefix_def)
  from pw have le: "length w \<le> Suc i" using prefix_length_le by fastforce
  from pw have "w = take (length w) (take (Suc i) p)"
    by (metis append_eq_conv_conj prefix_def)
  then have w: "w = take (length w) p" using le by (simp add: min_absorb1)
  have "length w \<noteq> Suc i" using ne w by auto
  with le have "length w \<le> i" by linarith
  with w show "\<exists>r\<le>i. w = take r p" by blast
next
  assume "\<exists>r\<le>i. w = take r p"
  then obtain r where r: "r \<le> i" "w = take r p" by blast
  have "take r p = take r (take (Suc i) p)"
    using r(1) by (simp add: min_absorb1)
  then have "prefix (take r p) (take (Suc i) p)"
    using take_is_prefix[of r "take (Suc i) p"] by simp
  moreover have "take r p \<noteq> take (Suc i) p"
  proof
    assume "take r p = take (Suc i) p"
    then have "length (take r p) = length (take (Suc i) p)" by simp
    with assms r(1) show False by simp
  qed
  ultimately show "strict_prefix w (take (Suc i) p)"
    by (simp add: strict_prefix_def r(2))
qed

text \<open>
  Claim C2. For every pattern \<open>P\<close> of length \<open>m\<close>, \<open>compute_failure\<close> returns a table
  \<open>F\<close> of length \<open>m\<close> with \<open>F[0] = 0\<close>, and for every \<open>0 < i < m\<close> the entry
  \<open>F[i]\<close> is the length of the longest proper prefix of \<open>P[0..=i]\<close> that is also a
  suffix of \<open>P[0..=i]\<close>: that prefix is a suffix, no longer proper prefix is one, and
  \<open>0 \<le> F[i] \<le> i\<close>.
\<close>

theorem compute_failure_correct:
  "\<exists>F. compute_failure P = Some F \<and> length F = length P \<and>
     (0 < length P \<longrightarrow> F ! 0 = 0) \<and>
     (\<forall>i. 0 < i \<and> i < length P \<longrightarrow>
        F ! i \<le> i \<and>
        strict_prefix (take (F ! i) P) (take (Suc i) P) \<and>
        suffix (take (F ! i) P) (take (Suc i) P) \<and>
        (\<forall>w. strict_prefix w (take (Suc i) P) \<and> suffix w (take (Suc i) P)
               \<longrightarrow> length w \<le> F ! i))"
proof -
  from compute_failure_table[of P] obtain F where
    F: "compute_failure P = Some F" "length F = length P" "table_upto P F (length P)"
    by blast
  have lb: "longest_border P i (F ! i)" if "i < length P" for i
    using F(3) that by (simp add: table_upto_def)
  have z: "F ! 0 = 0" if "0 < length P"
    using lb[OF that] by (simp add: longest_border_def)
  have main: "F ! i \<le> i \<and>
        strict_prefix (take (F ! i) P) (take (Suc i) P) \<and>
        suffix (take (F ! i) P) (take (Suc i) P) \<and>
        (\<forall>w. strict_prefix w (take (Suc i) P) \<and> suffix w (take (Suc i) P)
               \<longrightarrow> length w \<le> F ! i)" if i: "i < length P" for i
  proof -
    note b = lb[OF i, unfolded longest_border_def]
    have 1: "F ! i \<le> i" using b by blast
    have 2: "strict_prefix (take (F ! i) P) (take (Suc i) P)"
      using strict_prefix_take_iff[OF i] 1 by blast
    have 3: "suffix (take (F ! i) P) (take (Suc i) P)" using b by blast
    have 4: "length w \<le> F ! i"
      if w: "strict_prefix w (take (Suc i) P) \<and> suffix w (take (Suc i) P)" for w
    proof -
      from w strict_prefix_take_iff[OF i] obtain r where r: "r \<le> i" "w = take r P" by blast
      with w b have "r \<le> F ! i" by blast
      moreover have "length w \<le> r" using r(2) by simp
      ultimately show ?thesis by linarith
    qed
    from 1 2 3 4 show ?thesis by blast
  qed
  from F(1,2) z main show ?thesis by blast
qed

theorem compute_failure_correct_witness:
  "0 < (4::nat) \<and> 4 < length ''ABABAC'' \<and>
   strict_prefix ''ABA'' (take (Suc 4) ''ABABAC'') \<and> suffix ''ABA'' (take (Suc 4) ''ABABAC'') \<and>
   (\<exists>F. compute_failure ''ABABAC'' = Some F \<and> length F = 6 \<and> F ! 0 = 0 \<and>
        length ''ABA'' \<le> F ! 4 \<and> F ! 4 \<le> 4)"
proof -
  have h1: "0 < (4::nat) \<and> 4 < length ''ABABAC''" by simp
  have h2: "strict_prefix ''ABA'' (take (Suc 4) ''ABABAC'') \<and>
            suffix ''ABA'' (take (Suc 4) ''ABABAC'')"
    by (simp add: strict_prefix_def suffix_def)
  from compute_failure_correct[of "''ABABAC''"] obtain F where
    F: "compute_failure ''ABABAC'' = Some F" "length F = length ''ABABAC''"
       "0 < length ''ABABAC'' \<longrightarrow> F ! 0 = 0"
       "\<forall>i. 0 < i \<and> i < length ''ABABAC'' \<longrightarrow>
          F ! i \<le> i \<and>
          strict_prefix (take (F ! i) ''ABABAC'') (take (Suc i) ''ABABAC'') \<and>
          suffix (take (F ! i) ''ABABAC'') (take (Suc i) ''ABABAC'') \<and>
          (\<forall>w. strict_prefix w (take (Suc i) ''ABABAC'') \<and> suffix w (take (Suc i) ''ABABAC'')
                 \<longrightarrow> length w \<le> F ! i)"
    by blast
  from F(4) h1 have
    "F ! 4 \<le> 4 \<and>
     (\<forall>w. strict_prefix w (take (Suc 4) ''ABABAC'') \<and> suffix w (take (Suc 4) ''ABABAC'')
            \<longrightarrow> length w \<le> F ! 4)"
    by blast
  with h2 have "length ''ABA'' \<le> F ! 4 \<and> F ! 4 \<le> 4" by blast
  moreover have "F ! 0 = 0" "length F = 6" using F(2,3) by simp_all
  ultimately show ?thesis using h1 h2 F(1) by blast
qed

section \<open>Correctness of the KMP loops\<close>

lemma pre_suf_full_iff:
  assumes "i \<le> length T"
  shows "pre_suf P (take i T) (length P) \<longleftrightarrow> length P \<le> i \<and> occurs_at T P (i - length P)"
proof
  assume "pre_suf P (take i T) (length P)"
  then have "suffix P (take i T)" by (simp add: pre_suf_def)
  then obtain zs where zs: "take i T = zs @ P" by (auto simp: suffix_def)
  then have "length (take i T) = length zs + length P" by simp
  with assms have len: "i = length zs + length P" by simp
  have "take (length P) (drop (length zs) T) = drop (length zs) (take i T)"
    using len by (simp add: drop_take)
  also have "\<dots> = P" by (simp add: zs)
  finally show "length P \<le> i \<and> occurs_at T P (i - length P)"
    using len assms by (simp add: occurs_at_def)
next
  assume a: "length P \<le> i \<and> occurs_at T P (i - length P)"
  then have "take (i - length P + length P) T =
               take (i - length P) T @ take (length P) (drop (i - length P) T)"
    by (simp only: take_add)
  with a have "take i T = take (i - length P) T @ P"
    by (simp add: occurs_at_def)
  then have "suffix P (take i T)" by (auto simp: suffix_def)
  then show "pre_suf P (take i T) (length P)" by (simp add: pre_suf_def)
qed

lemma kmp_state_Nil: "p \<noteq> [] \<Longrightarrow> kmp_state p [] 0"
  unfolding kmp_state_def using pre_suf_0 pre_suf_length by fastforce

lemma kmp_state_after_match:
  assumes "table_upto P F (length P)" and "P \<noteq> []" and "lps P s (length P)"
  shows "kmp_state P s (F ! (length P - 1))"
proof -
  let ?m = "length P"
  let ?b = "F ! (?m - 1)"
  have m: "0 < ?m" using assms(2) by simp
  then have sm: "Suc (?m - 1) = ?m" by simp
  have lb: "longest_border P (?m - 1) ?b"
    using assms(1) m by (simp add: table_upto_def)
  then have b: "?b \<le> ?m - 1" "suffix (take ?b P) P"
    and mx: "\<forall>r. r \<le> ?m - 1 \<longrightarrow> suffix (take r P) P \<longrightarrow> r \<le> ?b"
    unfolding longest_border_def sm by simp_all
  have full: "pre_suf P s ?m" using assms(3) by (simp add: lps_def)
  have 1: "?b < ?m" using b(1) m by linarith
  have "pre_suf P (take ?m P) ?b" using b 1 by (simp add: pre_suf_def)
  then have 2: "pre_suf P s ?b"
    using pre_suf_via[OF full, of ?b] 1 by simp
  have 3: "r \<le> ?b" if "r < ?m" "pre_suf P s r" for r
  proof -
    have "pre_suf P (take ?m P) r" using pre_suf_via[OF full, of r] that by simp
    then have "suffix (take r P) P" by (simp add: pre_suf_def)
    moreover have "r \<le> ?m - 1" using that(1) by linarith
    ultimately show ?thesis using mx by blast
  qed
  from 1 2 3 show ?thesis unfolding kmp_state_def by blast
qed

lemma filter_upt_Suc:
  "filter Q [0..<Suc k] = (if Q k then filter Q [0..<k] @ [k] else filter Q [0..<k])"
  by simp

lemma search_all_loop_correct:
  assumes "table_upto P F (length P)" and "P \<noteq> []" and "i \<le> length T"
    and "kmp_state P (take i T) j"
    and "out = filter (occurs_at T P) [0..<i + 1 - length P]"
  shows "search_all_loop T P F i j out =
           Some (filter (occurs_at T P) [0..<length T + 1 - length P])"
  using assms(3-5)
proof (induction "length T - i" arbitrary: i j out)
  case 0
  then have "i = length T" by simp
  then have "search_all_loop T P F i j out = Some out"
    by (subst search_all_loop.simps) simp
  with 0 \<open>i = length T\<close> show ?case by simp
next
  case (Suc d)
  let ?m = "length P"
  from Suc have ilt: "i < length T" by linarith
  have tk: "take (Suc i) T = take i T @ [T ! i]"
    using ilt by (rule take_Suc_conv_app_nth)
  have tj: "table_upto P F j"
    using assms(1) Suc.prems(2) by (auto simp: kmp_state_def intro: table_upto_mono)
  from kmp_step[OF tj Suc.prems(2), of "T ! i"] obtain j1 where
    j1: "fallback P F (T ! i) j = Some j1" "j1 < ?m"
        "lps P (take i T @ [T ! i]) (if T ! i = P ! j1 then j1 + 1 else j1)"
    by blast
  define j2 where "j2 = (if T ! i = P ! j1 then j1 + 1 else j1)"
  have l2: "lps P (take (Suc i) T) j2" using j1(3) tk by (simp add: j2_def)
  have j2le: "j2 \<le> ?m" using l2 by (simp add: lps_def pre_suf_def)
  have full: "pre_suf P (take (Suc i) T) ?m \<longleftrightarrow> ?m \<le> Suc i \<and> occurs_at T P (Suc i - ?m)"
    using ilt by (intro pre_suf_full_iff) simp
  have d: "d = length T - Suc i" using Suc.hyps(2) by linarith
  show ?case
  proof (cases "j2 = ?m")
    case True
    then have "pre_suf P (take (Suc i) T) ?m" using l2 by (simp add: lps_def)
    with full have occ: "?m \<le> Suc i" "occurs_at T P (Suc i - ?m)" by simp_all
    have st: "kmp_state P (take (Suc i) T) (F ! (?m - 1))"
      using l2 True by (intro kmp_state_after_match assms(1,2)) simp
    have "Suc i + 1 - ?m = Suc (i + 1 - ?m)" using occ(1) by linarith
    then have out': "out @ [i + 1 - ?m] = filter (occurs_at T P) [0..<Suc i + 1 - ?m]"
      using occ(2) Suc.prems(3) by (simp only: filter_upt_Suc) simp
    have "search_all_loop T P F (Suc i) (F ! (?m - 1)) (out @ [i + 1 - ?m]) =
            Some (filter (occurs_at T P) [0..<length T + 1 - ?m])"
      using d ilt st out' by (intro Suc.hyps(1)) simp_all
    moreover have "search_all_loop T P F i j out =
            search_all_loop T P F (Suc i) (F ! (?m - 1)) (out @ [i + 1 - ?m])"
      using ilt j1(1) True by (subst search_all_loop.simps) (simp add: j2_def Let_def)
    ultimately show ?thesis by simp
  next
    case False
    with j2le have j2lt: "j2 < ?m" by linarith
    have st: "kmp_state P (take (Suc i) T) j2" using l2 j2lt by (rule lps_kmp_state)
    have nofull: "\<not> pre_suf P (take (Suc i) T) ?m"
      using l2 j2lt unfolding lps_def by (metis not_le)
    have out': "out = filter (occurs_at T P) [0..<Suc i + 1 - ?m]"
    proof (cases "?m \<le> Suc i")
      case True
      then have e: "Suc i + 1 - ?m = Suc (i + 1 - ?m)" by linarith
      have "\<not> occurs_at T P (i + 1 - ?m)" using nofull full True by simp
      then show ?thesis using Suc.prems(3) by (simp only: e filter_upt_Suc) simp
    next
      case False
      then have "Suc i + 1 - ?m = 0" "i + 1 - ?m = 0" by linarith+
      then show ?thesis using Suc.prems(3) by simp
    qed
    have "search_all_loop T P F (Suc i) j2 out =
            Some (filter (occurs_at T P) [0..<length T + 1 - ?m])"
      using d ilt st out' by (intro Suc.hyps(1)) simp_all
    moreover have "search_all_loop T P F i j out = search_all_loop T P F (Suc i) j2 out"
      using ilt j1(1) False by (subst search_all_loop.simps) (simp add: j2_def Let_def)
    ultimately show ?thesis by simp
  qed
qed

lemma search_all_eq_filter:
  assumes "P \<noteq> []"
  shows "search_all T P = Some (filter (occurs_at T P) [0..<length T + 1 - length P])"
proof (cases "length T < length P")
  case True
  then have "length T + 1 - length P = 0" by linarith
  with True show ?thesis by (simp add: search_all_def)
next
  case False
  from compute_failure_table[of P] obtain F where
    F: "compute_failure P = Some F" "table_upto P F (length P)" by blast
  have "search_all_loop T P F 0 0 [] =
          Some (filter (occurs_at T P) [0..<length T + 1 - length P])"
  proof (rule search_all_loop_correct[OF F(2) assms])
    show "0 \<le> length T" by simp
    show "kmp_state P (take 0 T) 0" using kmp_state_Nil[OF assms] by simp
    have "0 + 1 - length P = 0" using assms by (cases P) auto
    then show "[] = filter (occurs_at T P) [0..<0 + 1 - length P]" by simp
  qed
  with False assms F(1) show ?thesis by (simp add: search_all_def Let_def)
qed

text \<open>
  Claim C1. For every text \<open>T\<close> and non-empty pattern \<open>P\<close>, the offsets that
  \<open>search_all T P\<close> yields are exactly the occurrence offsets of \<open>P\<close> in \<open>T\<close>
  (overlapping ones included), in strictly increasing order: every yielded \<open>k\<close> has
  \<open>k + |P| \<le> |T|\<close> and \<open>T[k..k+|P|] = P\<close>, every such offset is yielded, and the
  sequence is strictly increasing.
\<close>

theorem search_all_correct:
  assumes "P \<noteq> []"
  shows "\<exists>ys. search_all T P = Some ys \<and>
           (\<forall>k. k \<in> set ys \<longleftrightarrow> k + length P \<le> length T \<and> take (length P) (drop k T) = P) \<and>
           sorted_wrt (<) ys"
proof -
  let ?ys = "filter (occurs_at T P) [0..<length T + 1 - length P]"
  have 1: "search_all T P = Some ?ys" using assms by (rule search_all_eq_filter)
  have 2: "k \<in> set ?ys \<longleftrightarrow> k + length P \<le> length T \<and> take (length P) (drop k T) = P" for k
    by (auto simp: occurs_at_def)
  have "sorted_wrt (<) [0..<length T + 1 - length P]" by (rule sorted_wrt_upt)
  then have 3: "sorted_wrt (<) ?ys" by (rule sorted_wrt_filter)
  from 1 2 3 show ?thesis by blast
qed

theorem search_all_correct_witness:
  "''aa'' \<noteq> [] \<and>
   (\<exists>ys. search_all ''aaaa'' ''aa'' = Some ys \<and> sorted_wrt (<) ys \<and>
      (1 \<in> set ys \<longleftrightarrow> 1 + length ''aa'' \<le> length ''aaaa'' \<and>
                       take (length ''aa'') (drop 1 ''aaaa'') = ''aa''))"
proof -
  have h: "''aa'' \<noteq> []" by simp
  from search_all_correct[OF h, of "''aaaa''"] show ?thesis using h by blast
qed

lemma first_match_unique:
  assumes "first_match T P r" and "first_match T P r'"
  shows "r = r'"
proof (cases r; cases r')
  fix k k' assume r: "r = Some k" "r' = Some k'"
  with assms have "occurs_at T P k" "occurs_at T P k'"
    "\<forall>i<k. \<not> occurs_at T P i" "\<forall>i<k'. \<not> occurs_at T P i"
    by (simp_all add: first_match_def)
  then have "\<not> k < k'" "\<not> k' < k" by blast+
  with r show ?thesis by simp
qed (use assms in \<open>auto simp: first_match_def\<close>)

lemma occurs_at_less:
  assumes "occurs_at T P k" and "P \<noteq> []"
  shows "k < length T"
proof -
  have "0 < length P" using assms(2) by simp
  with assms(1) show ?thesis unfolding occurs_at_def by linarith
qed

lemma scalar_loop_correct:
  assumes "table_upto P F (length P)" and "P \<noteq> []" and "i \<le> length T"
    and "kmp_state P (take i T) j"
    and "\<forall>k. occurs_at T P k \<longrightarrow> i < k + length P"
  shows "\<exists>r. scalar_loop T P F i j = Some (ptr_to_iter (length T) r) \<and> first_match T P r"
  using assms(3-5)
proof (induction "length T - i" arbitrary: i j)
  case 0
  then have i: "i = length T" by simp
  then have "scalar_loop T P F i j = Some (length T)"
    by (subst scalar_loop.simps) simp
  moreover have "first_match T P None"
    using 0(4) i unfolding first_match_def occurs_at_def by fastforce
  ultimately show ?case by (metis ptr_to_iter_def option.simps(4))
next
  case (Suc d)
  let ?m = "length P"
  from Suc have ilt: "i < length T" by linarith
  have tk: "take (Suc i) T = take i T @ [T ! i]"
    using ilt by (rule take_Suc_conv_app_nth)
  have tj: "table_upto P F j"
    using assms(1) Suc.prems(2) by (auto simp: kmp_state_def intro: table_upto_mono)
  from kmp_step[OF tj Suc.prems(2), of "T ! i"] obtain j1 where
    j1: "fallback P F (T ! i) j = Some j1" "j1 < ?m"
        "lps P (take i T @ [T ! i]) (if T ! i = P ! j1 then j1 + 1 else j1)"
    by blast
  define j2 where "j2 = (if T ! i = P ! j1 then j1 + 1 else j1)"
  have l2: "lps P (take (Suc i) T) j2" using j1(3) tk by (simp add: j2_def)
  have j2le: "j2 \<le> ?m" using l2 by (simp add: lps_def pre_suf_def)
  have full: "pre_suf P (take (Suc i) T) ?m \<longleftrightarrow> ?m \<le> Suc i \<and> occurs_at T P (Suc i - ?m)"
    using ilt by (intro pre_suf_full_iff) simp
  have d: "d = length T - Suc i" using Suc.hyps(2) by linarith
  show ?case
  proof (cases "j2 = ?m")
    case True
    then have "pre_suf P (take (Suc i) T) ?m" using l2 by (simp add: lps_def)
    with full have occ: "?m \<le> Suc i" "occurs_at T P (Suc i - ?m)" by simp_all
    have "\<not> occurs_at T P k'" if "k' < Suc i - ?m" for k'
    proof
      assume "occurs_at T P k'"
      with Suc.prems(3) have "i < k' + ?m" by blast
      with that show False by linarith
    qed
    with occ(2) have "first_match T P (Some (Suc i - ?m))"
      by (simp add: first_match_def)
    moreover have "scalar_loop T P F i j = Some (i + 1 - ?m)"
      using ilt j1(1) True by (subst scalar_loop.simps) (simp add: j2_def Let_def)
    ultimately show ?thesis
      by (intro exI[of _ "Some (Suc i - ?m)"]) (simp add: ptr_to_iter_def)
  next
    case False
    with j2le have j2lt: "j2 < ?m" by linarith
    have st: "kmp_state P (take (Suc i) T) j2" using l2 j2lt by (rule lps_kmp_state)
    have nofull: "\<not> pre_suf P (take (Suc i) T) ?m"
      using l2 j2lt unfolding lps_def by (metis not_le)
    have nxt: "\<forall>k. occurs_at T P k \<longrightarrow> Suc i < k + ?m"
    proof (intro allI impI)
      fix k assume k: "occurs_at T P k"
      with Suc.prems(3) have lt: "i < k + ?m" by blast
      have "k + ?m \<noteq> Suc i"
      proof
        assume e: "k + ?m = Suc i"
        then have "Suc i - ?m = k" "?m \<le> Suc i" by linarith+
        with k full nofull show False by simp
      qed
      with lt show "Suc i < k + ?m" by linarith
    qed
    have "\<exists>r. scalar_loop T P F (Suc i) j2 = Some (ptr_to_iter (length T) r) \<and>
            first_match T P r"
      using d ilt st nxt by (intro Suc.hyps(1)) simp_all
    moreover have "scalar_loop T P F i j = scalar_loop T P F (Suc i) j2"
      using ilt j1(1) False by (subst scalar_loop.simps) (simp add: j2_def Let_def)
    ultimately show ?thesis by simp
  qed
qed

lemma kmp_search_scalar_correct:
  assumes "table_upto P F (length P)" and "P \<noteq> []"
  shows "\<exists>r. kmp_search_scalar T P F = Some (ptr_to_iter (length T) r) \<and> first_match T P r"
proof -
  have "\<exists>r. scalar_loop T P F 0 0 = Some (ptr_to_iter (length T) r) \<and> first_match T P r"
  proof (rule scalar_loop_correct[OF assms])
    show "0 \<le> length T" by simp
    show "kmp_state P (take 0 T) 0" using kmp_state_Nil[OF assms(2)] by simp
    show "\<forall>k. occurs_at T P k \<longrightarrow> 0 < k + length P" using assms(2) by simp
  qed
  with assms(2) show ?thesis by (simp add: kmp_search_scalar_def Let_def)
qed

section \<open>The SIMD primitives compute first positions\<close>

lemma movemask_zero_iff: "movemask_epi8 bs = 0 \<longleftrightarrow> (\<forall>b\<in>set bs. \<not> b)"
  by (induction bs) auto

lemma movemask_bound: "movemask_epi8 bs + 1 \<le> 2 ^ length bs"
  by (induction bs) auto

lemma ctz_odd: "odd n \<Longrightarrow> ctz n = 0"
  by (subst ctz.simps) simp

lemma ctz_double: "n \<noteq> 0 \<Longrightarrow> ctz (2 * n) = Suc (ctz n)"
  by (subst ctz.simps) simp

lemma ctz_movemask:
  "movemask_epi8 bs \<noteq> 0 \<Longrightarrow> ctz (movemask_epi8 bs) = length (takeWhile Not bs)"
proof (induction bs)
  case Nil
  then show ?case by simp
next
  case (Cons b bs)
  show ?case
  proof (cases b)
    case True
    then show ?thesis by (simp add: ctz_odd)
  next
    case False
    with Cons.prems have nz: "movemask_epi8 bs \<noteq> 0" by simp
    with False Cons.IH show ?thesis by (simp add: ctz_double)
  qed
qed

lemma mask_not_movemask:
  "mask_not (length bs) (movemask_epi8 bs) = movemask_epi8 (map Not bs)"
proof (induction bs)
  case Nil
  then show ?case by (simp add: mask_not_def)
next
  case (Cons b bs)
  have bd: "movemask_epi8 bs + 1 \<le> 2 ^ length bs" by (rule movemask_bound)
  have ih: "2 ^ length bs - 1 - movemask_epi8 bs = movemask_epi8 (map Not bs)"
    using Cons.IH by (simp add: mask_not_def)
  show ?case
    using bd ih by (cases b) (simp_all add: mask_not_def)
qed

lemma movemask_ones_iff:
  "movemask_epi8 bs = 2 ^ length bs - 1 \<longleftrightarrow> (\<forall>b\<in>set bs. b)"
proof -
  have bd: "movemask_epi8 bs + 1 \<le> 2 ^ length bs" by (rule movemask_bound)
  have "movemask_epi8 bs = 2 ^ length bs - 1 \<longleftrightarrow> mask_not (length bs) (movemask_epi8 bs) = 0"
    using bd unfolding mask_not_def by linarith
  also have "\<dots> \<longleftrightarrow> movemask_epi8 (map Not bs) = 0" by (simp only: mask_not_movemask)
  also have "\<dots> \<longleftrightarrow> (\<forall>b\<in>set bs. b)" by (simp add: movemask_zero_iff)
  finally show ?thesis .
qed

lemma first_true:
  assumes "\<exists>b\<in>set bs. Q b"
  shows "length (takeWhile (\<lambda>b. \<not> Q b) bs) < length bs \<and>
         Q (bs ! length (takeWhile (\<lambda>b. \<not> Q b) bs)) \<and>
         (\<forall>i<length (takeWhile (\<lambda>b. \<not> Q b) bs). \<not> Q (bs ! i))"
  using assms
proof (induction bs)
  case Nil
  then show ?case by simp
next
  case (Cons b bs)
  show ?case
  proof (cases "Q b")
    case True
    then show ?thesis by simp
  next
    case False
    with Cons.prems have "\<exists>b\<in>set bs. Q b" by simp
    from Cons.IH[OF this] False show ?thesis
      by (auto simp: nth_Cons split: nat.splits)
  qed
qed

lemma loadu_nth:
  assumes "ptr + w \<le> length buf" and "i < w"
  shows "loadu w buf ptr ! i = buf ! (ptr + i)" and "length (loadu w buf ptr) = w"
  using assms by (simp_all add: loadu_def)

lemma scan_chunk_first:
  assumes "ptr + w \<le> length buf"
  shows "first_index buf c ptr (ptr + w) (scan_chunk w buf c ptr)"
proof -
  define bs where "bs = cmpeq_epi8 (loadu w buf ptr) (set1_epi8 w c)"
  have len: "length bs = w"
    using assms by (simp add: bs_def cmpeq_epi8_def loadu_def set1_epi8_def)
  have nth: "bs ! i \<longleftrightarrow> buf ! (ptr + i) = c" if "i < w" for i
    using assms that by (simp add: bs_def cmpeq_epi8_def loadu_def set1_epi8_def)
  have sc: "scan_chunk w buf c ptr =
              (if movemask_epi8 bs \<noteq> 0 then Some (ptr + ctz (movemask_epi8 bs)) else None)"
    by (simp add: scan_chunk_def bs_def Let_def)
  show ?thesis
  proof (cases "movemask_epi8 bs = 0")
    case True
    then have "\<forall>i<w. \<not> bs ! i"
      using len by (simp add: movemask_zero_iff all_set_conv_all_nth)
    then have "\<forall>k. ptr \<le> k \<and> k < ptr + w \<longrightarrow> buf ! k \<noteq> c"
      using nth by (metis add_diff_inverse_nat less_diff_conv2 not_less add.commute nat_add_left_cancel_less)
    with True sc show ?thesis by (simp add: first_index_def)
  next
    case False
    define t where "t = length (takeWhile Not bs)"
    have ct: "ctz (movemask_epi8 bs) = t" using False by (simp add: ctz_movemask t_def)
    from False have "\<exists>b\<in>set bs. b" by (simp add: movemask_zero_iff)
    from first_true[of bs "\<lambda>b. b", OF this]
    have t: "t < w" "bs ! t" "\<forall>i<t. \<not> bs ! i"
      using len by (simp_all add: t_def)
    have 1: "buf ! (ptr + t) = c" using nth t(1,2) by simp
    have 2: "buf ! k' \<noteq> c" if "ptr \<le> k'" "k' < ptr + t" for k'
    proof -
      have "k' - ptr < t" using that by linarith
      then have "\<not> bs ! (k' - ptr)" using t(3) by blast
      moreover have "k' - ptr < w" using \<open>k' - ptr < t\<close> t(1) by linarith
      ultimately show ?thesis using nth[of "k' - ptr"] that(1) by simp
    qed
    from False sc ct t(1) 1 2 show ?thesis by (auto simp: first_index_def)
  qed
qed

lemma cmp_chunk_mismatch:
  assumes "pa + w \<le> length A" and "pb + w \<le> length B"
  shows "case cmp_chunk w A pa B pb of
           None \<Rightarrow> (\<forall>i<w. A ! (pa + i) = B ! (pb + i))
         | Some t \<Rightarrow> t < w \<and> A ! (pa + t) \<noteq> B ! (pb + t) \<and> (\<forall>i<t. A ! (pa + i) = B ! (pb + i))"
proof -
  define bs where "bs = cmpeq_epi8 (loadu w A pa) (loadu w B pb)"
  have len: "length bs = w"
    using assms by (simp add: bs_def cmpeq_epi8_def loadu_def)
  have nth: "bs ! i \<longleftrightarrow> A ! (pa + i) = B ! (pb + i)" if "i < w" for i
    using assms that by (simp add: bs_def cmpeq_epi8_def loadu_def)
  have cc: "cmp_chunk w A pa B pb =
              (if movemask_epi8 bs \<noteq> 2 ^ w - 1
               then Some (ctz (mask_not w (movemask_epi8 bs))) else None)"
    by (simp add: cmp_chunk_def bs_def Let_def)
  show ?thesis
  proof (cases "movemask_epi8 bs = 2 ^ w - 1")
    case True
    then have "\<forall>b\<in>set bs. b" using movemask_ones_iff[of bs] len by simp
    then have "\<forall>i<w. bs ! i" using len by (simp add: all_set_conv_all_nth)
    with nth True cc show ?thesis by simp
  next
    case False
    then have ex: "\<exists>b\<in>set bs. \<not> b" using movemask_ones_iff[of bs] len by auto
    define t where "t = length (takeWhile (\<lambda>b. \<not> \<not> b) bs)"
    from first_true[of bs Not, OF ex]
    have t: "t < w" "\<not> bs ! t" "\<forall>i<t. bs ! i"
      using len by (simp_all add: t_def)
    have nz: "movemask_epi8 (map Not bs) \<noteq> 0"
      using ex by (simp add: movemask_zero_iff)
    have "mask_not w (movemask_epi8 bs) = movemask_epi8 (map Not bs)"
      using mask_not_movemask[of bs] len by simp
    then have "ctz (mask_not w (movemask_epi8 bs)) = length (takeWhile Not (map Not bs))"
      using nz by (simp add: ctz_movemask)
    also have "\<dots> = t" by (simp add: t_def takeWhile_map comp_def)
    finally have ct: "ctz (mask_not w (movemask_epi8 bs)) = t" .
    have "A ! (pa + t) \<noteq> B ! (pb + t)" using nth t(1,2) by simp
    moreover have "\<forall>i<t. A ! (pa + i) = B ! (pb + i)"
      using nth t(1,3) by (meson less_trans)
    ultimately show ?thesis using False cc ct t(1) by simp
  qed
qed

lemma first_index_extend:
  assumes "first_index buf c q e r" and "p \<le> q"
    and "\<forall>k. p \<le> k \<and> k < q \<longrightarrow> buf ! k \<noteq> c"
  shows "first_index buf c p e r"
proof (cases r)
  case None
  with assms show ?thesis unfolding first_index_def by (auto simp: not_less) (metis not_less)
next
  case (Some k)
  with assms show ?thesis unfolding first_index_def
    by (auto simp: not_less) (metis not_less)
qed

lemma first_index_chunk_hit:
  assumes "first_index buf c p (p + w) (Some k)" and "p + w \<le> e"
  shows "first_index buf c p e (Some k)"
  using assms unfolding first_index_def by auto

lemma first_index_chunk_miss:
  assumes "first_index buf c p (p + w) None" and "first_index buf c (p + w) e r"
  shows "first_index buf c p e r"
  using assms(2)
proof (rule first_index_extend)
  show "p \<le> p + w" by simp
  show "\<forall>k. p \<le> k \<and> k < p + w \<longrightarrow> buf ! k \<noteq> c"
    using assms(1) by (simp add: first_index_def)
qed

lemma scan_tail_first: "first_index buf c p e (scan_tail buf e c p)"
proof (induction buf e c p rule: scan_tail.induct)
  case (1 buf e c p)
  show ?case
  proof (cases "p < e")
    case False
    then have "scan_tail buf e c p = None" by (subst scan_tail.simps) simp
    moreover have "\<forall>k. p \<le> k \<and> k < e \<longrightarrow> buf ! k \<noteq> c"
      using False by (meson le_less_trans)
    ultimately show ?thesis by (simp add: first_index_def)
  next
    case True
    show ?thesis
    proof (cases "buf ! p = c")
      case T: True
      with True have "scan_tail buf e c p = Some p" by (subst scan_tail.simps) simp
      with True T show ?thesis by (auto simp: first_index_def)
    next
      case F: False
      with True have eq: "scan_tail buf e c p = scan_tail buf e c (p + 1)"
        by (subst scan_tail.simps) simp
      have "first_index buf c (p + 1) e (scan_tail buf e c (p + 1))"
        using "1.IH" True F by simp
      then have "first_index buf c p e (scan_tail buf e c (p + 1))"
      proof (rule first_index_extend)
        show "p \<le> p + 1" by simp
        show "\<forall>k. p \<le> k \<and> k < p + 1 \<longrightarrow> buf ! k \<noteq> c"
          using F by (metis Suc_eq_plus1 le_antisym less_Suc_eq_le)
      qed
      with eq show ?thesis by simp
    qed
  qed
qed

section \<open>The first-byte scans and the vector compares\<close>

lemma sse42_scan16_first:
  "e \<le> length buf \<Longrightarrow> first_index buf c p e (sse42_scan16 buf e c p)"
proof (induction buf e c p rule: sse42_scan16.induct)
  case (1 buf e c p)
  show ?case
  proof (cases "p + 16 \<le> e")
    case False
    then have "sse42_scan16 buf e c p = scan_tail buf e c p"
      by (subst sse42_scan16.simps) simp
    then show ?thesis by (simp add: scan_tail_first)
  next
    case True
    then have ch: "first_index buf c p (p + 16) (scan_chunk 16 buf c p)"
      using "1.prems" by (intro scan_chunk_first) simp
    show ?thesis
    proof (cases "scan_chunk 16 buf c p")
      case (Some r)
      with True have "sse42_scan16 buf e c p = Some r"
        by (subst sse42_scan16.simps) simp
      with ch Some True show ?thesis by (simp add: first_index_chunk_hit)
    next
      case None
      with True have eq: "sse42_scan16 buf e c p = sse42_scan16 buf e c (p + 16)"
        by (subst sse42_scan16.simps) simp
      have "first_index buf c (p + 16) e (sse42_scan16 buf e c (p + 16))"
        using "1.IH" True None "1.prems" by simp
      with ch None eq show ?thesis by (simp add: first_index_chunk_miss)
    qed
  qed
qed

lemma avx2_scan16_first:
  "e \<le> length buf \<Longrightarrow> first_index buf c p e (avx2_scan16 buf e c p)"
proof (induction buf e c p rule: avx2_scan16.induct)
  case (1 buf e c p)
  show ?case
  proof (cases "p + 16 \<le> e")
    case False
    then have "avx2_scan16 buf e c p = scan_tail buf e c p"
      by (subst avx2_scan16.simps) simp
    then show ?thesis by (simp add: scan_tail_first)
  next
    case True
    then have ch: "first_index buf c p (p + 16) (scan_chunk 16 buf c p)"
      using "1.prems" by (intro scan_chunk_first) simp
    show ?thesis
    proof (cases "scan_chunk 16 buf c p")
      case (Some r)
      with True have "avx2_scan16 buf e c p = Some r"
        by (subst avx2_scan16.simps) simp
      with ch Some True show ?thesis by (simp add: first_index_chunk_hit)
    next
      case None
      with True have eq: "avx2_scan16 buf e c p = avx2_scan16 buf e c (p + 16)"
        by (subst avx2_scan16.simps) simp
      have "first_index buf c (p + 16) e (avx2_scan16 buf e c (p + 16))"
        using "1.IH" True None "1.prems" by simp
      with ch None eq show ?thesis by (simp add: first_index_chunk_miss)
    qed
  qed
qed

lemma avx2_scan32_first:
  "e \<le> length buf \<Longrightarrow> first_index buf c p e (avx2_scan32 buf e c p)"
proof (induction buf e c p rule: avx2_scan32.induct)
  case (1 buf e c p)
  show ?case
  proof (cases "p + 32 \<le> e")
    case False
    then have "avx2_scan32 buf e c p = avx2_scan16 buf e c p"
      by (subst avx2_scan32.simps) simp
    then show ?thesis using "1.prems" by (simp add: avx2_scan16_first)
  next
    case True
    then have ch: "first_index buf c p (p + 32) (scan_chunk 32 buf c p)"
      using "1.prems" by (intro scan_chunk_first) simp
    show ?thesis
    proof (cases "scan_chunk 32 buf c p")
      case (Some r)
      with True have "avx2_scan32 buf e c p = Some r"
        by (subst avx2_scan32.simps) simp
      with ch Some True show ?thesis by (simp add: first_index_chunk_hit)
    next
      case None
      with True have eq: "avx2_scan32 buf e c p = avx2_scan32 buf e c (p + 32)"
        by (subst avx2_scan32.simps) simp
      have "first_index buf c (p + 32) e (avx2_scan32 buf e c (p + 32))"
        using "1.IH" True None "1.prems" by simp
      with ch None eq show ?thesis by (simp add: first_index_chunk_miss)
    qed
  qed
qed

lemma scan_once_first:
  assumes "e \<le> length buf"
    and "first_index buf c (if p + w \<le> e then p + w else p) e r"
  shows "first_index buf c p e
           (case (if p + w \<le> e then scan_chunk w buf c p else None) of
              Some k \<Rightarrow> Some k | None \<Rightarrow> r)"
proof (cases "p + w \<le> e")
  case False
  with assms(2) show ?thesis by simp
next
  case True
  then have ch: "first_index buf c p (p + w) (scan_chunk w buf c p)"
    using assms(1) by (intro scan_chunk_first) simp
  show ?thesis
  proof (cases "scan_chunk w buf c p")
    case (Some k)
    with ch True show ?thesis by (simp add: first_index_chunk_hit)
  next
    case None
    with ch True assms(2) show ?thesis by (simp add: first_index_chunk_miss)
  qed
qed

lemma avx512_rest_first:
  assumes "e \<le> length buf"
  shows "first_index buf c p e (avx512_rest buf e c p)"
proof -
  define p1 where "p1 = (if p + 32 \<le> e then p + 32 else p)"
  define p2 where "p2 = (if p1 + 16 \<le> e then p1 + 16 else p1)"
  define r2 where "r2 = scan_tail buf e c p2"
  define r1 where "r1 = (case (if p1 + 16 \<le> e then scan_chunk 16 buf c p1 else None) of
                           Some k \<Rightarrow> Some k | None \<Rightarrow> r2)"
  have "first_index buf c p2 e r2" by (simp add: r2_def scan_tail_first)
  then have "first_index buf c p1 e r1"
    unfolding r1_def p2_def by (rule scan_once_first[OF assms])
  then have "first_index buf c p e
               (case (if p + 32 \<le> e then scan_chunk 32 buf c p else None) of
                  Some k \<Rightarrow> Some k | None \<Rightarrow> r1)"
    unfolding p1_def by (rule scan_once_first[OF assms])
  moreover have "avx512_rest buf e c p =
               (case (if p + 32 \<le> e then scan_chunk 32 buf c p else None) of
                  Some k \<Rightarrow> Some k | None \<Rightarrow> r1)"
    unfolding avx512_rest_def r1_def r2_def p2_def p1_def Let_def by (rule refl)
  ultimately show ?thesis by simp
qed

lemma avx512_scan64_first:
  "e \<le> length buf \<Longrightarrow> first_index buf c p e (avx512_scan64 buf e c p)"
proof (induction buf e c p rule: avx512_scan64.induct)
  case (1 buf e c p)
  show ?case
  proof (cases "p + 64 \<le> e")
    case False
    then have "avx512_scan64 buf e c p = avx512_rest buf e c p"
      by (subst avx512_scan64.simps) simp
    then show ?thesis using "1.prems" by (simp add: avx512_rest_first)
  next
    case True
    then have ch: "first_index buf c p (p + 64) (scan_chunk 64 buf c p)"
      using "1.prems" by (intro scan_chunk_first) simp
    show ?thesis
    proof (cases "scan_chunk 64 buf c p")
      case (Some r)
      with True have "avx512_scan64 buf e c p = Some r"
        by (subst avx512_scan64.simps) simp
      with ch Some True show ?thesis by (simp add: first_index_chunk_hit)
    next
      case None
      with True have eq: "avx512_scan64 buf e c p = avx512_scan64 buf e c (p + 64)"
        by (subst avx512_scan64.simps) simp
      have "first_index buf c (p + 64) e (avx512_scan64 buf e c (p + 64))"
        using "1.IH" True None "1.prems" by simp
      with ch None eq show ?thesis by (simp add: first_index_chunk_miss)
    qed
  qed
qed

lemma first_index_empty: "first_index buf c h h None"
  by (auto simp: first_index_def)

lemma find_first_char_sse42_first:
  "h + len \<le> length buf \<Longrightarrow> first_index buf c h (h + len) (find_first_char_sse42 buf h len c)"
  by (simp add: find_first_char_sse42_def first_index_empty sse42_scan16_first)

lemma find_first_char_avx2_first:
  "h + len \<le> length buf \<Longrightarrow> first_index buf c h (h + len) (find_first_char_avx2 buf h len c)"
  by (simp add: find_first_char_avx2_def first_index_empty avx2_scan32_first)

lemma find_first_char_avx512_first:
  "h + len \<le> length buf \<Longrightarrow> first_index buf c h (h + len) (find_first_char_avx512 buf h len c)"
  by (simp add: find_first_char_avx512_def first_index_empty avx512_scan64_first)

lemma mismatch_at_stop:
  assumes "i \<le> len" and "\<forall>k<i. T ! (a + k) = P ! k" and "i < len \<longrightarrow> T ! (a + i) \<noteq> P ! i"
  shows "mismatch_at T a P len i"
  using assms by (simp add: mismatch_at_def)

lemma prefix_extend_one:
  assumes "\<forall>k<i. T ! (a + k) = P ! k" and "T ! (a + i) = P ! i"
  shows "\<forall>k<i + 1. T ! (a + k) = P ! k"
  using assms by (metis Suc_eq_plus1 less_Suc_eq)

lemma sse42_verify_mismatch:
  "j \<le> length P \<Longrightarrow> \<forall>k<j. T ! (c + k) = P ! k \<Longrightarrow>
   mismatch_at T c P (length P) (sse42_verify T P c j)"
proof (induction T P c j rule: sse42_verify.induct)
  case (1 T P c j)
  show ?case
  proof (cases "j < length P \<and> T ! (c + j) = P ! j")
    case True
    then have eq: "sse42_verify T P c j = sse42_verify T P c (j + 1)"
      by (subst sse42_verify.simps) simp
    have "\<forall>k<j + 1. T ! (c + k) = P ! k"
      using "1.prems"(2) True by (intro prefix_extend_one) simp_all
    then have "mismatch_at T c P (length P) (sse42_verify T P c (j + 1))"
      using "1.IH" True by simp
    with eq show ?thesis by simp
  next
    case False
    then have "sse42_verify T P c j = j" by (subst sse42_verify.simps) auto
    moreover have "mismatch_at T c P (length P) j"
      using "1.prems" False by (intro mismatch_at_stop) auto
    ultimately show ?thesis by simp
  qed
qed

lemma cmp_tail_mismatch:
  "i \<le> len \<Longrightarrow> \<forall>k<i. T ! (a + k) = P ! k \<Longrightarrow>
   mismatch_at T a P len (cmp_tail T a P len i)"
proof (induction T a P len i rule: cmp_tail.induct)
  case (1 T a P len i)
  show ?case
  proof (cases "i < len \<and> T ! (a + i) = P ! i")
    case True
    then have eq: "cmp_tail T a P len i = cmp_tail T a P len (i + 1)"
      by (subst cmp_tail.simps) simp
    have "\<forall>k<i + 1. T ! (a + k) = P ! k"
      using "1.prems"(2) True by (intro prefix_extend_one) simp_all
    then have "mismatch_at T a P len (cmp_tail T a P len (i + 1))"
      using "1.IH" True by simp
    with eq show ?thesis by simp
  next
    case False
    then have "cmp_tail T a P len i = (if i < len then i else len)"
      by (subst cmp_tail.simps) auto
    then have "cmp_tail T a P len i = i" using "1.prems"(1) by simp
    moreover have "mismatch_at T a P len i"
      using "1.prems" False by (intro mismatch_at_stop) auto
    ultimately show ?thesis by simp
  qed
qed

lemma prefix_extend_chunk:
  assumes "\<forall>k<i. T ! (a + k) = P ! k" and "\<forall>k<w. T ! (a + i + k) = P ! (i + k)"
  shows "\<forall>k<i + w. T ! (a + k) = P ! (k::nat)"
proof (intro allI impI)
  fix k assume k: "k < i + w"
  show "T ! (a + k) = P ! k"
  proof (cases "k < i")
    case True with assms(1) show ?thesis by simp
  next
    case False
    then have "k - i < w" "i + (k - i) = k" using k by linarith+
    with assms(2) have "T ! (a + i + (k - i)) = P ! (i + (k - i))" by blast
    with \<open>i + (k - i) = k\<close> show ?thesis by (simp add: add.assoc)
  qed
qed

lemma cmp_chunk_hit:
  assumes "a + len \<le> length T" and "len \<le> length P" and "i + w \<le> len"
    and "\<forall>k<i. T ! (a + k) = P ! k"
    and "cmp_chunk w T (a + i) P i = Some t"
  shows "mismatch_at T a P len (i + t)"
proof -
  have "case cmp_chunk w T (a + i) P i of
           None \<Rightarrow> (\<forall>k<w. T ! (a + i + k) = P ! (i + k))
         | Some t \<Rightarrow> t < w \<and> T ! (a + i + t) \<noteq> P ! (i + t) \<and>
                      (\<forall>k<t. T ! (a + i + k) = P ! (i + k))"
    using assms(1-3) by (intro cmp_chunk_mismatch) simp_all
  with assms(5) have t: "t < w" "T ! (a + i + t) \<noteq> P ! (i + t)"
    "\<forall>k<t. T ! (a + i + k) = P ! (i + k)" by simp_all
  have "\<forall>k<i + t. T ! (a + k) = P ! k"
    using assms(4) t(3) by (rule prefix_extend_chunk)
  moreover have "i + t \<le> len" using t(1) assms(3) by linarith
  moreover have "T ! (a + (i + t)) \<noteq> P ! (i + t)" using t(2) by (simp add: add.assoc)
  ultimately show ?thesis by (simp add: mismatch_at_def)
qed

lemma cmp_chunk_miss:
  assumes "a + len \<le> length T" and "len \<le> length P" and "i + w \<le> len"
    and "\<forall>k<i. T ! (a + k) = P ! k"
    and "cmp_chunk w T (a + i) P i = None"
  shows "\<forall>k<i + w. T ! (a + k) = P ! k"
proof -
  have "case cmp_chunk w T (a + i) P i of
           None \<Rightarrow> (\<forall>k<w. T ! (a + i + k) = P ! (i + k))
         | Some t \<Rightarrow> t < w \<and> T ! (a + i + t) \<noteq> P ! (i + t) \<and>
                      (\<forall>k<t. T ! (a + i + k) = P ! (i + k))"
    using assms(1-3) by (intro cmp_chunk_mismatch) simp_all
  with assms(5) have "\<forall>k<w. T ! (a + i + k) = P ! (i + k)" by simp
  with assms(4) show ?thesis by (rule prefix_extend_chunk)
qed

lemma avx2_cmp32_mismatch:
  "a + len \<le> length T \<Longrightarrow> len \<le> length P \<Longrightarrow> i \<le> len \<Longrightarrow>
   \<forall>k<i. T ! (a + k) = P ! k \<Longrightarrow>
   mismatch_at T a P len (avx2_cmp32 T a P len i)"
proof (induction T a P len i rule: avx2_cmp32.induct)
  case (1 T a P len i)
  show ?case
  proof (cases "i + 32 \<le> len")
    case False
    then have "avx2_cmp32 T a P len i = cmp_tail T a P len i"
      by (subst avx2_cmp32.simps) simp
    then show ?thesis using "1.prems" by (simp add: cmp_tail_mismatch)
  next
    case True
    show ?thesis
    proof (cases "cmp_chunk 32 T (a + i) P i")
      case (Some t)
      with True have "avx2_cmp32 T a P len i = i + t"
        by (subst avx2_cmp32.simps) simp
      moreover have "mismatch_at T a P len (i + t)"
        using "1.prems"(1,2) True "1.prems"(4) Some by (rule cmp_chunk_hit)
      ultimately show ?thesis by simp
    next
      case None
      with True have eq: "avx2_cmp32 T a P len i = avx2_cmp32 T a P len (i + 32)"
        by (subst avx2_cmp32.simps) simp
      have "\<forall>k<i + 32. T ! (a + k) = P ! k"
        using "1.prems"(1,2) True "1.prems"(4) None by (rule cmp_chunk_miss)
      then have "mismatch_at T a P len (avx2_cmp32 T a P len (i + 32))"
        using "1.IH" True None "1.prems" by simp
      with eq show ?thesis by simp
    qed
  qed
qed

lemma avx512_cmp_rest_mismatch:
  assumes "a + len \<le> length T" and "len \<le> length P" and "i \<le> len"
    and "\<forall>k<i. T ! (a + k) = P ! k"
  shows "mismatch_at T a P len (avx512_cmp_rest T a P len i)"
proof (cases "i + 32 \<le> len")
  case False
  then have "avx512_cmp_rest T a P len i = cmp_tail T a P len i"
    by (simp add: avx512_cmp_rest_def)
  then show ?thesis using assms by (simp add: cmp_tail_mismatch)
next
  case True
  show ?thesis
  proof (cases "cmp_chunk 32 T (a + i) P i")
    case (Some t)
    with True have "avx512_cmp_rest T a P len i = i + t"
      by (simp add: avx512_cmp_rest_def)
    moreover have "mismatch_at T a P len (i + t)"
      using assms(1,2) True assms(4) Some by (rule cmp_chunk_hit)
    ultimately show ?thesis by simp
  next
    case None
    with True have eq: "avx512_cmp_rest T a P len i = cmp_tail T a P len (i + 32)"
      by (simp add: avx512_cmp_rest_def)
    have "\<forall>k<i + 32. T ! (a + k) = P ! k"
      using assms(1,2) True assms(4) None by (rule cmp_chunk_miss)
    then have "mismatch_at T a P len (cmp_tail T a P len (i + 32))"
      using True by (intro cmp_tail_mismatch) simp_all
    with eq show ?thesis by simp
  qed
qed

lemma avx512_cmp64_mismatch:
  "a + len \<le> length T \<Longrightarrow> len \<le> length P \<Longrightarrow> i \<le> len \<Longrightarrow>
   \<forall>k<i. T ! (a + k) = P ! k \<Longrightarrow>
   mismatch_at T a P len (avx512_cmp64 T a P len i)"
proof (induction T a P len i rule: avx512_cmp64.induct)
  case (1 T a P len i)
  show ?case
  proof (cases "i + 64 \<le> len")
    case False
    then have "avx512_cmp64 T a P len i = avx512_cmp_rest T a P len i"
      by (subst avx512_cmp64.simps) simp
    then show ?thesis using "1.prems" by (simp add: avx512_cmp_rest_mismatch)
  next
    case True
    show ?thesis
    proof (cases "cmp_chunk 64 T (a + i) P i")
      case (Some t)
      with True have "avx512_cmp64 T a P len i = i + t"
        by (subst avx512_cmp64.simps) simp
      moreover have "mismatch_at T a P len (i + t)"
        using "1.prems"(1,2) True "1.prems"(4) Some by (rule cmp_chunk_hit)
      ultimately show ?thesis by simp
    next
      case None
      with True have eq: "avx512_cmp64 T a P len i = avx512_cmp64 T a P len (i + 64)"
        by (subst avx512_cmp64.simps) simp
      have "\<forall>k<i + 64. T ! (a + k) = P ! k"
        using "1.prems"(1,2) True "1.prems"(4) None by (rule cmp_chunk_miss)
      then have "mismatch_at T a P len (avx512_cmp64 T a P len (i + 64))"
        using "1.IH" True None "1.prems" by simp
      with eq show ?thesis by simp
    qed
  qed
qed

section \<open>The SIMD search loops return the leftmost occurrence\<close>

lemma occurs_at_iff_nth:
  "occurs_at T P c \<longleftrightarrow> c + length P \<le> length T \<and> (\<forall>i<length P. T ! (c + i) = P ! i)"
proof (cases "c + length P \<le> length T")
  case False
  then show ?thesis by (simp add: occurs_at_def)
next
  case True
  then have len: "length (take (length P) (drop c T)) = length P" by simp
  have "take (length P) (drop c T) = P \<longleftrightarrow> (\<forall>i<length P. T ! (c + i) = P ! i)"
  proof
    assume e: "take (length P) (drop c T) = P"
    show "\<forall>i<length P. T ! (c + i) = P ! i"
    proof (intro allI impI)
      fix i assume i: "i < length P"
      then have "take (length P) (drop c T) ! i = T ! (c + i)" using True by simp
      with e show "T ! (c + i) = P ! i" by simp
    qed
  next
    assume a: "\<forall>i<length P. T ! (c + i) = P ! i"
    show "take (length P) (drop c T) = P"
    proof (rule nth_equalityI)
      show "length (take (length P) (drop c T)) = length P" by (rule len)
      fix i assume "i < length (take (length P) (drop c T))"
      then have i: "i < length P" using len by simp
      then have "take (length P) (drop c T) ! i = T ! (c + i)" using True by simp
      with a i show "take (length P) (drop c T) ! i = P ! i" by simp
    qed
  qed
  with True show ?thesis by (simp add: occurs_at_def)
qed

lemma mismatch_full_iff:
  assumes "mismatch_at T c P (length P) k" and "c + length P \<le> length T"
  shows "k = length P \<longleftrightarrow> occurs_at T P c"
proof
  assume "k = length P"
  with assms show "occurs_at T P c" by (simp add: mismatch_at_def occurs_at_iff_nth)
next
  assume "occurs_at T P c"
  then have all: "\<forall>i<length P. T ! (c + i) = P ! i" by (simp add: occurs_at_iff_nth)
  show "k = length P"
  proof (rule ccontr)
    assume "k \<noteq> length P"
    with assms(1) have "k < length P" "T ! (c + k) \<noteq> P ! k" by (simp_all add: mismatch_at_def)
    with all show False by blast
  qed
qed

lemma candidate_none:
  assumes "first_index T (P ! 0) p (length T - length P + 1) None"
    and "P \<noteq> []" and "\<forall>k<p. \<not> occurs_at T P k"
  shows "first_match T P None"
proof -
  have "\<not> occurs_at T P k" for k
  proof
    assume occ: "occurs_at T P k"
    then have kl: "k + length P \<le> length T" and all: "\<forall>i<length P. T ! (k + i) = P ! i"
      by (simp_all add: occurs_at_iff_nth)
    have "0 < length P" using assms(2) by simp
    with all have "T ! (k + 0) = P ! 0" by blast
    with kl have "k < length T - length P + 1" "T ! k = P ! 0" by simp_all
    moreover have "p \<le> k" using assms(3) occ by (meson not_less)
    ultimately show False using assms(1) by (simp add: first_index_def)
  qed
  then show ?thesis by (simp add: first_match_def)
qed

lemma candidate_some:
  assumes "first_index T (P ! 0) p (length T - length P + 1) (Some c)"
    and "P \<noteq> []" and "length P \<le> length T" and "\<forall>k<p. \<not> occurs_at T P k"
  shows "p \<le> c \<and> c + length P \<le> length T \<and> T ! c = P ! 0 \<and> (\<forall>k<c. \<not> occurs_at T P k)"
proof -
  from assms(1) have c: "p \<le> c" "c < length T - length P + 1" "T ! c = P ! 0"
    and before: "\<forall>k'. p \<le> k' \<and> k' < c \<longrightarrow> T ! k' \<noteq> P ! 0"
    by (simp_all add: first_index_def)
  have "c + length P \<le> length T" using c(2) assms(3) by linarith
  moreover have "\<not> occurs_at T P k" if "k < c" for k
  proof (cases "k < p")
    case True with assms(4) show ?thesis by blast
  next
    case False
    then have "T ! (k + 0) \<noteq> P ! 0" using before that by simp
    moreover have "0 < length P" using assms(2) by simp
    ultimately show ?thesis unfolding occurs_at_iff_nth by blast
  qed
  ultimately show ?thesis using c by blast
qed

lemma none_below_after_candidate:
  assumes "\<forall>k<c. \<not> occurs_at T P k" and "\<not> occurs_at T P c"
  shows "\<forall>k<c + 1. \<not> occurs_at T P k"
  using assms by (metis Suc_eq_plus1 less_Suc_eq)

lemma table_entry_less:
  assumes "table_upto P F (length P)" and "0 < j" and "j < length P"
  shows "F ! (j - 1) < j"
proof -
  have "longest_border P (j - 1) (F ! (j - 1))"
    using assms by (simp add: table_upto_def)
  then have "F ! (j - 1) \<le> j - 1" by (simp add: longest_border_def)
  with assms(2) show ?thesis by linarith
qed

lemma sse42_fail_returns:
  assumes "table_upto P F (length P)" and "j < length P"
  shows "\<exists>j'. sse42_fail T P F c j = Some j'"
  using assms(2)
proof (induction j rule: less_induct)
  case (less j)
  show ?case
  proof (cases "j > 0 \<and> T ! (c + j) \<noteq> P ! j")
    case False
    then have "sse42_fail T P F c j = Some j" by (subst sse42_fail.simps) auto
    then show ?thesis by simp
  next
    case True
    then have lt: "F ! (j - 1) < j" using table_entry_less[OF assms(1)] less.prems by simp
    then have "\<exists>j'. sse42_fail T P F c (F ! (j - 1)) = Some j'"
      using less.IH less.prems by simp
    moreover have "sse42_fail T P F c j = sse42_fail T P F c (F ! (j - 1))"
      using True by (subst sse42_fail.simps) simp
    ultimately show ?thesis by simp
  qed
qed

text \<open>
  The shift by \<open>k - F[k - 1]\<close> after a mismatch at pattern index \<open>k\<close> skips no
  occurrence.
\<close>

lemma safe_skip:
  assumes tab: "table_upto P F (length P)"
    and mm: "mismatch_at T c P (length P) k" and k: "0 < k" "k < length P"
    and c': "c < c'" "c' < c + (k - F ! (k - 1))"
  shows "\<not> occurs_at T P c'"
proof
  assume occ: "occurs_at T P c'"
  define d where "d = c' - c"
  have d: "0 < d" "d < k - F ! (k - 1)" "c' = c + d" using c' by (simp_all add: d_def)
  then have dk: "d < k" by linarith
  have eqT: "\<forall>i<k. T ! (c + i) = P ! i" using mm by (simp add: mismatch_at_def)
  have eqO: "\<forall>i<length P. T ! (c' + i) = P ! i" using occ by (simp add: occurs_at_iff_nth)
  have "take (k - d) P = drop d (take k P)"
  proof (rule nth_equalityI)
    show "length (take (k - d) P) = length (drop d (take k P))" using k by simp
    fix i assume "i < length (take (k - d) P)"
    then have i: "i < k - d" by simp
    then have "i < length P" "d + i < k" using k dk by linarith+
    then have "P ! i = T ! (c' + i)" "T ! (c + (d + i)) = P ! (d + i)"
      using eqO eqT by simp_all
    then have "P ! i = P ! (d + i)" using d(3) by (simp add: add.assoc)
    then show "take (k - d) P ! i = drop d (take k P) ! i"
      using i \<open>d + i < k\<close> k by simp
  qed
  then have suf: "suffix (take (k - d) P) (take k P)" by (metis suffix_drop)
  have "longest_border P (k - 1) (F ! (k - 1))"
    using tab k by (simp add: table_upto_def)
  moreover have "Suc (k - 1) = k" using k by simp
  ultimately have "\<forall>r. r \<le> k - 1 \<longrightarrow> suffix (take r P) (take k P) \<longrightarrow> r \<le> F ! (k - 1)"
    by (simp add: longest_border_def)
  moreover have "k - d \<le> k - 1" using d(1) by linarith
  ultimately have "k - d \<le> F ! (k - 1)" using suf by blast
  with d(2) dk show False by linarith
qed

lemma none_below_after_skip:
  assumes tab: "table_upto P F (length P)"
    and mm: "mismatch_at T c P (length P) k" and k: "k < length P"
    and cl: "c + length P \<le> length T"
    and before: "\<forall>i<c. \<not> occurs_at T P i"
  shows "c < c + (if k > 0 then k - F ! (k - 1) else 1) \<and>
         (\<forall>i<c + (if k > 0 then k - F ! (k - 1) else 1). \<not> occurs_at T P i)"
proof -
  have noc: "\<not> occurs_at T P c" using mismatch_full_iff[OF mm cl] k by simp
  show ?thesis
  proof (cases "k > 0")
    case False
    then show ?thesis using none_below_after_candidate[OF before noc] by simp
  next
    case True
    have lt: "F ! (k - 1) < k" using table_entry_less[OF tab True k] .
    have "\<not> occurs_at T P i" if "i < c + (k - F ! (k - 1))" for i
    proof -
      consider "i < c" | "i = c" | "c < i" by linarith
      then show ?thesis
      proof cases
        case 1 with before show ?thesis by blast
      next
        case 2 with noc show ?thesis by simp
      next
        case 3 then show ?thesis using safe_skip[OF tab mm True k _ that] by blast
      qed
    qed
    with True lt show ?thesis by simp
  qed
qed

lemma sse42_body_correct:
  assumes tab: "table_upto P F (length P)" and ne: "P \<noteq> []" and le: "length P \<le> length T"
    and p: "p < length T - length P + 1" and before: "\<forall>k<p. \<not> occurs_at T P k"
  shows "\<exists>s. sse42_body T P F (length T - length P + 1) p = Some s \<and>
           (case s of Return r \<Rightarrow> first_match T P r
            | Continue p' \<Rightarrow> p < p' \<and> (\<forall>k<p'. \<not> occurs_at T P k))"
proof -
  let ?te = "length T - length P + 1"
  let ?f = "find_first_char_sse42 T p (?te - p) (P ! 0)"
  have "p + (?te - p) \<le> length T" using p le ne by (cases P) auto
  then have "first_index T (P ! 0) p (p + (?te - p)) ?f"
    by (rule find_first_char_sse42_first)
  then have fi: "first_index T (P ! 0) p ?te ?f" using p by simp
  show ?thesis
  proof (cases ?f)
    case None
    then have "sse42_body T P F ?te p = Some (Return None)"
      by (simp add: sse42_body_def)
    moreover have "first_match T P None"
      using fi None ne before by (intro candidate_none[of T P p]) simp_all
    ultimately show ?thesis by simp
  next
    case (Some c)
    from candidate_some[of T P p c] fi Some ne le before
    have c: "p \<le> c" "c + length P \<le> length T" "T ! c = P ! 0" "\<forall>k<c. \<not> occurs_at T P k"
      by simp_all
    define j where "j = sse42_verify T P c 1"
    have "1 \<le> length P" using ne by (cases P) auto
    moreover have "\<forall>k<1. T ! (c + k) = P ! k" using c(3) by simp
    ultimately have mm: "mismatch_at T c P (length P) j"
      unfolding j_def by (rule sse42_verify_mismatch)
    show ?thesis
    proof (cases "j = length P")
      case True
      then have "occurs_at T P c" using mismatch_full_iff[OF mm c(2)] by simp
      with c(4) have "first_match T P (Some c)" by (simp add: first_match_def)
      moreover have "sse42_body T P F ?te p = Some (Return (Some c))"
        using Some True by (simp add: sse42_body_def j_def)
      ultimately show ?thesis by simp
    next
      case False
      then have jlt: "j < length P" using mm by (simp add: mismatch_at_def)
      have noc: "\<not> occurs_at T P c" using mismatch_full_iff[OF mm c(2)] False by simp
      from sse42_fail_returns[OF tab jlt, of T c] obtain j' where
        j': "sse42_fail T P F c j = Some j'" by blast
      have "sse42_body T P F ?te p = Some (Continue (c + 1))"
        using Some False j' unfolding j_def by (simp add: sse42_body_def Let_def)
      moreover have "\<forall>k<c + 1. \<not> occurs_at T P k"
        using c(4) noc by (rule none_below_after_candidate)
      moreover have "p < c + 1" using c(1) by simp
      ultimately show ?thesis by simp
    qed
  qed
qed

lemma avx2_body_correct:
  assumes tab: "table_upto P F (length P)" and ne: "P \<noteq> []" and le: "length P \<le> length T"
    and p: "p < length T - length P + 1" and before: "\<forall>k<p. \<not> occurs_at T P k"
  shows "case avx2_body T P F (length T - length P + 1) p of
           Return r \<Rightarrow> first_match T P r
         | Continue p' \<Rightarrow> p < p' \<and> (\<forall>k<p'. \<not> occurs_at T P k)"
proof -
  let ?te = "length T - length P + 1"
  let ?f = "find_first_char_avx2 T p (?te - p) (P ! 0)"
  have "p + (?te - p) \<le> length T" using p le ne by (cases P) auto
  then have "first_index T (P ! 0) p (p + (?te - p)) ?f"
    by (rule find_first_char_avx2_first)
  then have fi: "first_index T (P ! 0) p ?te ?f" using p by simp
  show ?thesis
  proof (cases ?f)
    case None
    then have "avx2_body T P F ?te p = Return None"
      by (simp add: avx2_body_def)
    moreover have "first_match T P None"
      using fi None ne before by (intro candidate_none[of T P p]) simp_all
    ultimately show ?thesis by simp
  next
    case (Some c)
    from candidate_some[of T P p c] fi Some ne le before
    have c: "p \<le> c" "c + length P \<le> length T" "T ! c = P ! 0" "\<forall>k<c. \<not> occurs_at T P k"
      by simp_all
    define k where "k = compare_avx2 T c P (length P)"
    have mm: "mismatch_at T c P (length P) k"
      unfolding k_def compare_avx2_def using c(2) by (intro avx2_cmp32_mismatch) simp_all
    show ?thesis
    proof (cases "k = length P")
      case True
      then have "occurs_at T P c" using mismatch_full_iff[OF mm c(2)] by simp
      with c(4) have "first_match T P (Some c)" by (simp add: first_match_def)
      moreover have "avx2_body T P F ?te p = Return (Some c)"
        using Some True by (simp add: avx2_body_def k_def)
      ultimately show ?thesis by simp
    next
      case False
      then have klt: "k < length P" using mm by (simp add: mismatch_at_def)
      define skip where "skip = (if k > 0 then k - F ! (k - 1) else 1)"
      have "avx2_body T P F ?te p = Continue (c + skip)"
        using Some False unfolding skip_def k_def by (simp add: avx2_body_def Let_def)
      moreover have "c < c + skip \<and> (\<forall>i<c + skip. \<not> occurs_at T P i)"
        unfolding skip_def using tab mm klt c(2) c(4) by (rule none_below_after_skip)
      ultimately show ?thesis using c(1) by simp
    qed
  qed
qed

lemma avx512_body_correct:
  assumes tab: "table_upto P F (length P)" and ne: "P \<noteq> []" and le: "length P \<le> length T"
    and p: "p < length T - length P + 1" and before: "\<forall>k<p. \<not> occurs_at T P k"
  shows "case avx512_body T P F (length T - length P + 1) p of
           Return r \<Rightarrow> first_match T P r
         | Continue p' \<Rightarrow> p < p' \<and> (\<forall>k<p'. \<not> occurs_at T P k)"
proof -
  let ?te = "length T - length P + 1"
  let ?f = "find_first_char_avx512 T p (?te - p) (P ! 0)"
  have "p + (?te - p) \<le> length T" using p le ne by (cases P) auto
  then have "first_index T (P ! 0) p (p + (?te - p)) ?f"
    by (rule find_first_char_avx512_first)
  then have fi: "first_index T (P ! 0) p ?te ?f" using p by simp
  show ?thesis
  proof (cases ?f)
    case None
    then have "avx512_body T P F ?te p = Return None"
      by (simp add: avx512_body_def)
    moreover have "first_match T P None"
      using fi None ne before by (intro candidate_none[of T P p]) simp_all
    ultimately show ?thesis by simp
  next
    case (Some c)
    from candidate_some[of T P p c] fi Some ne le before
    have c: "p \<le> c" "c + length P \<le> length T" "T ! c = P ! 0" "\<forall>k<c. \<not> occurs_at T P k"
      by simp_all
    define k where "k = compare_avx512 T c P (length P)"
    have mm: "mismatch_at T c P (length P) k"
      unfolding k_def compare_avx512_def using c(2) by (intro avx512_cmp64_mismatch) simp_all
    show ?thesis
    proof (cases "k = length P")
      case True
      then have "occurs_at T P c" using mismatch_full_iff[OF mm c(2)] by simp
      with c(4) have "first_match T P (Some c)" by (simp add: first_match_def)
      moreover have "avx512_body T P F ?te p = Return (Some c)"
        using Some True by (simp add: avx512_body_def k_def)
      ultimately show ?thesis by simp
    next
      case False
      then have klt: "k < length P" using mm by (simp add: mismatch_at_def)
      define skip where "skip = (if k > 0 then k - F ! (k - 1) else 1)"
      have "avx512_body T P F ?te p = Continue (c + skip)"
        using Some False unfolding skip_def k_def by (simp add: avx512_body_def Let_def)
      moreover have "c < c + skip \<and> (\<forall>i<c + skip. \<not> occurs_at T P i)"
        unfolding skip_def using tab mm klt c(2) c(4) by (rule none_below_after_skip)
      ultimately show ?thesis using c(1) by simp
    qed
  qed
qed

lemma loop_exit_no_match:
  assumes "\<not> p < length T - length P + 1" and "\<forall>k<p. \<not> occurs_at T P k"
  shows "first_match T P None"
proof -
  have "\<not> occurs_at T P k" for k
  proof
    assume "occurs_at T P k"
    then have "k + length P \<le> length T" by (simp add: occurs_at_def)
    then have "k < p" using assms(1) by linarith
    with assms(2) \<open>occurs_at T P k\<close> show False by blast
  qed
  then show ?thesis by (simp add: first_match_def)
qed

lemma sse42_loop_correct:
  assumes tab: "table_upto P F (length P)" and ne: "P \<noteq> []" and le: "length P \<le> length T"
    and before: "\<forall>k<p. \<not> occurs_at T P k"
  shows "\<exists>r. sse42_loop T P F (length T - length P + 1) p = Some r \<and> first_match T P r"
  using before
proof (induction "length T - length P + 1 - p" arbitrary: p rule: less_induct)
  case less
  let ?te = "length T - length P + 1"
  show ?case
  proof (cases "p < ?te")
    case False
    then have "sse42_loop T P F ?te p = Some None" by (subst sse42_loop.simps) simp
    moreover have "first_match T P None" using False less.prems by (rule loop_exit_no_match)
    ultimately show ?thesis by simp
  next
    case True
    from sse42_body_correct[OF tab ne le True less.prems] obtain s where
      s: "sse42_body T P F ?te p = Some s"
         "case s of Return r \<Rightarrow> first_match T P r
          | Continue p' \<Rightarrow> p < p' \<and> (\<forall>k<p'. \<not> occurs_at T P k)"
      by blast
    show ?thesis
    proof (cases s)
      case (Return r)
      with s True have "sse42_loop T P F ?te p = Some r" by (subst sse42_loop.simps) simp
      with s(2) Return show ?thesis by simp
    next
      case (Continue p')
      with s(2) have p': "p < p'" "\<forall>k<p'. \<not> occurs_at T P k" by simp_all
      have "?te - p' < ?te - p" using p'(1) True by linarith
      from less.hyps[OF this p'(2)]
      have "\<exists>r. sse42_loop T P F ?te p' = Some r \<and> first_match T P r" .
      moreover have "sse42_loop T P F ?te p = sse42_loop T P F ?te p'"
        using s(1) Continue True by (subst sse42_loop.simps) simp
      ultimately show ?thesis by simp
    qed
  qed
qed

lemma avx2_loop_correct:
  assumes tab: "table_upto P F (length P)" and ne: "P \<noteq> []" and le: "length P \<le> length T"
    and before: "\<forall>k<p. \<not> occurs_at T P k"
  shows "\<exists>r. avx2_loop T P F (length T - length P + 1) p = Some r \<and> first_match T P r"
  using before
proof (induction "length T - length P + 1 - p" arbitrary: p rule: less_induct)
  case less
  let ?te = "length T - length P + 1"
  show ?case
  proof (cases "p < ?te")
    case False
    then have "avx2_loop T P F ?te p = Some None" by (subst avx2_loop.simps) simp
    moreover have "first_match T P None" using False less.prems by (rule loop_exit_no_match)
    ultimately show ?thesis by simp
  next
    case True
    note b = avx2_body_correct[OF tab ne le True less.prems]
    show ?thesis
    proof (cases "avx2_body T P F ?te p")
      case (Return r)
      with True have "avx2_loop T P F ?te p = Some r" by (subst avx2_loop.simps) simp
      with b Return show ?thesis by simp
    next
      case (Continue p')
      with b have p': "p < p'" "\<forall>k<p'. \<not> occurs_at T P k" by simp_all
      have "?te - p' < ?te - p" using p'(1) True by linarith
      from less.hyps[OF this p'(2)]
      have "\<exists>r. avx2_loop T P F ?te p' = Some r \<and> first_match T P r" .
      moreover have "avx2_loop T P F ?te p = avx2_loop T P F ?te p'"
        using Continue True by (subst avx2_loop.simps) simp
      ultimately show ?thesis by simp
    qed
  qed
qed

lemma avx512_loop_correct:
  assumes tab: "table_upto P F (length P)" and ne: "P \<noteq> []" and le: "length P \<le> length T"
    and before: "\<forall>k<p. \<not> occurs_at T P k"
  shows "\<exists>r. avx512_loop T P F (length T - length P + 1) p = Some r \<and> first_match T P r"
  using before
proof (induction "length T - length P + 1 - p" arbitrary: p rule: less_induct)
  case less
  let ?te = "length T - length P + 1"
  show ?case
  proof (cases "p < ?te")
    case False
    then have "avx512_loop T P F ?te p = Some None" by (subst avx512_loop.simps) simp
    moreover have "first_match T P None" using False less.prems by (rule loop_exit_no_match)
    ultimately show ?thesis by simp
  next
    case True
    note b = avx512_body_correct[OF tab ne le True less.prems]
    show ?thesis
    proof (cases "avx512_body T P F ?te p")
      case (Return r)
      with True have "avx512_loop T P F ?te p = Some r" by (subst avx512_loop.simps) simp
      with b Return show ?thesis by simp
    next
      case (Continue p')
      with b have p': "p < p'" "\<forall>k<p'. \<not> occurs_at T P k" by simp_all
      have "?te - p' < ?te - p" using p'(1) True by linarith
      from less.hyps[OF this p'(2)]
      have "\<exists>r. avx512_loop T P F ?te p' = Some r \<and> first_match T P r" .
      moreover have "avx512_loop T P F ?te p = avx512_loop T P F ?te p'"
        using Continue True by (subst avx512_loop.simps) simp
      ultimately show ?thesis by simp
    qed
  qed
qed

lemma short_text_no_match:
  assumes "length T < length P"
  shows "first_match T P None"
  using assms by (simp add: first_match_def occurs_at_def)

lemma kmp_search_sse42_correct:
  assumes "table_upto P F (length P)" and "P \<noteq> []"
  shows "\<exists>r. kmp_search_sse42 T P F = Some r \<and> first_match T P r"
proof (cases "length T < length P")
  case True
  with assms(2) short_text_no_match[OF True] show ?thesis
    by (simp add: kmp_search_sse42_def)
next
  case False
  then have "\<exists>r. sse42_loop T P F (length T - length P + 1) 0 = Some r \<and> first_match T P r"
    using assms by (intro sse42_loop_correct) simp_all
  with False assms(2) show ?thesis by (simp add: kmp_search_sse42_def Let_def)
qed

lemma kmp_search_avx2_correct:
  assumes "table_upto P F (length P)" and "P \<noteq> []"
  shows "\<exists>r. kmp_search_avx2 T P F = Some r \<and> first_match T P r"
proof (cases "length T < length P")
  case True
  with assms(2) short_text_no_match[OF True] show ?thesis
    by (simp add: kmp_search_avx2_def)
next
  case False
  then have "\<exists>r. avx2_loop T P F (length T - length P + 1) 0 = Some r \<and> first_match T P r"
    using assms by (intro avx2_loop_correct) simp_all
  with False assms(2) show ?thesis by (simp add: kmp_search_avx2_def Let_def)
qed

lemma kmp_search_avx512_correct:
  assumes "table_upto P F (length P)" and "P \<noteq> []"
  shows "\<exists>r. kmp_search_avx512 T P F = Some r \<and> first_match T P r"
proof (cases "length T < length P")
  case True
  with assms(2) short_text_no_match[OF True] show ?thesis
    by (simp add: kmp_search_avx512_def)
next
  case False
  then have "\<exists>r. avx512_loop T P F (length T - length P + 1) 0 = Some r \<and> first_match T P r"
    using assms by (intro avx512_loop_correct) simp_all
  with False assms(2) show ?thesis by (simp add: kmp_search_avx512_def Let_def)
qed

section \<open>Dispatch: every path gives the same answer\<close>

lemma search_result:
  "\<exists>r. (\<forall>cpu. search cpu T P = Some (ptr_to_iter (length T) r)) \<and>
       (P = [] \<longrightarrow> r = Some 0) \<and> (P \<noteq> [] \<longrightarrow> first_match T P r)"
proof (cases "P = []")
  case True
  then have "\<forall>cpu. search cpu T P = Some (ptr_to_iter (length T) (Some 0))"
    by (simp add: search_def ptr_to_iter_def)
  with True show ?thesis by blast
next
  case False
  show ?thesis
  proof (cases "length T < length P")
    case True
    then have "\<forall>cpu. search cpu T P = Some (ptr_to_iter (length T) None)"
      using False by (simp add: search_def ptr_to_iter_def)
    with False short_text_no_match[OF True] show ?thesis by blast
  next
    case long: False
    from compute_failure_table[of P] obtain F where
      F: "compute_failure P = Some F" "table_upto P F (length P)" by blast
    from kmp_search_scalar_correct[OF F(2) False, of T] obtain r where
      r: "kmp_search_scalar T P F = Some (ptr_to_iter (length T) r)" "first_match T P r"
      by blast
    from kmp_search_sse42_correct[OF F(2) False, of T] obtain r1 where
      r1: "kmp_search_sse42 T P F = Some r1" "first_match T P r1" by blast
    from kmp_search_avx2_correct[OF F(2) False, of T] obtain r2 where
      r2: "kmp_search_avx2 T P F = Some r2" "first_match T P r2" by blast
    from kmp_search_avx512_correct[OF F(2) False, of T] obtain r3 where
      r3: "kmp_search_avx512 T P F = Some r3" "first_match T P r3" by blast
    have e: "r1 = r" "r2 = r" "r3 = r"
      using r(2) r1(2) r2(2) r3(2) first_match_unique by blast+
    have "search cpu T P = Some (ptr_to_iter (length T) r)" for cpu
      using False long F(1) r(1) r1(1) r2(1) r3(1) e
      by (simp add: search_def Let_def)
    with False r(2) show ?thesis by blast
  qed
qed

text \<open>
  Claim C3. For every text and pattern, with the failure table of the pattern, the
  SSE4.2 search (first-byte SIMD scan plus verification) finds a match at exactly the
  position where the scalar KMP search finds one and reports no match exactly when the
  scalar search does; the same holds for the AVX2 and AVX-512 kernels, so the result of
  \<open>search_pos\<close> does not depend on the dispatch path taken.
\<close>

theorem simd_scalar_agree:
  "\<exists>F r. compute_failure P = Some F \<and>
          kmp_search_scalar T P F = Some (ptr_to_iter (length T) r) \<and>
          kmp_search_sse42 T P F = Some r \<and>
          kmp_search_avx2 T P F = Some r \<and>
          kmp_search_avx512 T P F = Some r \<and>
          (P \<noteq> [] \<longrightarrow> (r = None \<longleftrightarrow> ptr_to_iter (length T) r = length T)) \<and>
          search_pos cpu T P = search_pos cpu' T P"
proof -
  from search_result[of T P] obtain r0 where
    r0: "\<forall>cpu. search cpu T P = Some (ptr_to_iter (length T) r0)" by blast
  then have sp: "search_pos cpu T P = search_pos cpu' T P"
    by (simp add: search_pos_def)
  show ?thesis
  proof (cases "P = []")
    case True
    then have "compute_failure P = Some []"
      "kmp_search_scalar T P [] = Some (ptr_to_iter (length T) (Some 0))"
      "kmp_search_sse42 T P [] = Some (Some 0)"
      "kmp_search_avx2 T P [] = Some (Some 0)"
      "kmp_search_avx512 T P [] = Some (Some 0)"
      by (simp_all add: compute_failure_def kmp_search_scalar_def kmp_search_sse42_def
            kmp_search_avx2_def kmp_search_avx512_def ptr_to_iter_def)
    with True sp show ?thesis by blast
  next
    case False
    from compute_failure_table[of P] obtain F where
      F: "compute_failure P = Some F" "table_upto P F (length P)" by blast
    from kmp_search_scalar_correct[OF F(2) False, of T] obtain r where
      r: "kmp_search_scalar T P F = Some (ptr_to_iter (length T) r)" "first_match T P r"
      by blast
    from kmp_search_sse42_correct[OF F(2) False, of T] obtain r1 where
      r1: "kmp_search_sse42 T P F = Some r1" "first_match T P r1" by blast
    from kmp_search_avx2_correct[OF F(2) False, of T] obtain r2 where
      r2: "kmp_search_avx2 T P F = Some r2" "first_match T P r2" by blast
    from kmp_search_avx512_correct[OF F(2) False, of T] obtain r3 where
      r3: "kmp_search_avx512 T P F = Some r3" "first_match T P r3" by blast
    have e: "r1 = r" "r2 = r" "r3 = r"
      using r(2) r1(2) r2(2) r3(2) first_match_unique by blast+
    have "r = None \<longleftrightarrow> ptr_to_iter (length T) r = length T"
    proof (cases r)
      case None
      then show ?thesis by (simp add: ptr_to_iter_def)
    next
      case (Some k)
      with r(2) have "occurs_at T P k" by (simp add: first_match_def)
      then have "k < length T" using False by (rule occurs_at_less)
      with Some show ?thesis by (simp add: ptr_to_iter_def)
    qed
    with F(1) r(1) r1(1) r2(1) r3(1) e sp show ?thesis by blast
  qed
qed

theorem simd_scalar_agree_witness:
  "''ab'' \<noteq> [] \<and>
   (\<exists>F r. compute_failure ''ab'' = Some F \<and>
          kmp_search_scalar ''xxab'' ''ab'' F = Some (ptr_to_iter (length ''xxab'') r) \<and>
          kmp_search_sse42 ''xxab'' ''ab'' F = Some r \<and>
          (r = None \<longleftrightarrow> ptr_to_iter (length ''xxab'') r = length ''xxab''))"
proof -
  have h: "''ab'' \<noteq> []" by simp
  from simd_scalar_agree[of "''ab''" "''xxab''"] obtain F r where
    "compute_failure ''ab'' = Some F"
    "kmp_search_scalar ''xxab'' ''ab'' F = Some (ptr_to_iter (length ''xxab'') r)"
    "kmp_search_sse42 ''xxab'' ''ab'' F = Some r"
    "''ab'' \<noteq> [] \<longrightarrow> (r = None \<longleftrightarrow> ptr_to_iter (length ''xxab'') r = length ''xxab'')"
    by blast
  with h show ?thesis by blast
qed

section \<open>The empty pattern\<close>

text \<open>
  Claim C6, as stated: for every text \<open>T\<close>, the empty text included,
  \<open>search_pos(T, "") = Some 0\<close> and \<open>contains(T, "") = true\<close>. It fails at the empty
  text, where the returned iterator \<^verbatim>\<open>text.begin()\<close> equals \<^verbatim>\<open>text.end()\<close>.
\<close>

theorem empty_pattern_empty_text_counterexample:
  "search_pos \<lparr>use_avx512 = False, use_avx2 = False, use_sse42 = False\<rparr> '''' '''' = Some None \<and>
   contains \<lparr>use_avx512 = False, use_avx2 = False, use_sse42 = False\<rparr> '''' '''' = Some False"
  by (simp add: search_pos_def contains_def search_def)

text \<open>
  Claim C6, amended: searching for the empty pattern returns offset 0 and containment is
  true for every non-empty text; for the empty text \<open>search_pos\<close> returns no offset and
  \<open>contains\<close> returns false.
\<close>

theorem empty_pattern_search:
  "search_pos cpu T [] = Some (if T = [] then None else Some 0) \<and>
   contains cpu T [] = Some (T \<noteq> [])"
  by (auto simp: search_pos_def contains_def search_def)

section \<open>The cursor after a failed verification\<close>

text \<open>
  Claim C4 says that after a candidate \<open>c\<close> fails verification with matched prefix
  length \<open>k\<close> the cursor moves to \<open>c + max(1, k - F[k - 1])\<close>. The AVX2 and AVX-512
  loops do that; the SSE4.2 loop runs its fall-back loop and then always continues at
  \<open>c + 1\<close>. On a 64-byte text starting with \<open>abd\<close> and the pattern \<open>abc\<close> (table
  \<open>[0, 0, 0]\<close>), the candidate 0 fails with \<open>k = 2\<close>: the skip is 2, the AVX2 loop
  continues at 2, the SSE4.2 loop at 1.
\<close>

lemma scan_chunk_lane0:
  assumes "buf ! ptr = c" and "ptr + w \<le> length buf" and "0 < w"
  shows "scan_chunk w buf c ptr = Some ptr"
proof -
  have fi: "first_index buf c ptr (ptr + w) (scan_chunk w buf c ptr)"
    using assms(2) by (rule scan_chunk_first)
  show ?thesis
  proof (cases "scan_chunk w buf c ptr")
    case None
    with fi have "\<forall>k. ptr \<le> k \<and> k < ptr + w \<longrightarrow> buf ! k \<noteq> c"
      by (simp add: first_index_def)
    with assms(1,3) show ?thesis by (metis le_refl less_add_same_cancel1)
  next
    case (Some k)
    with fi have "ptr \<le> k" "\<forall>k'. ptr \<le> k' \<and> k' < k \<longrightarrow> buf ! k' \<noteq> c"
      by (simp_all add: first_index_def)
    with assms(1) have "k = ptr" by (metis le_refl le_neq_implies_less)
    with Some show ?thesis by simp
  qed
qed

theorem sse42_cursor_ignores_failure_table:
  "compute_failure ''abc'' = Some [0, 0, 0] \<and>
   sse42_verify (''abd'' @ replicate 58 CHR ''x'' @ ''abc'') ''abc'' 0 1 = 2 \<and>
   sse42_body (''abd'' @ replicate 58 CHR ''x'' @ ''abc'') ''abc'' [0, 0, 0] 62 0
     = Some (Continue 1) \<and>
   avx2_body (''abd'' @ replicate 58 CHR ''x'' @ ''abc'') ''abc'' [0, 0, 0] 62 0
     = Continue 2"
proof -
  have 1: "compute_failure ''abc'' = Some [0, 0, 0]"
    by (simp add: compute_failure_def failure_loop.simps fallback.simps)
  have 2: "sse42_verify (''abd'' @ replicate 58 CHR ''x'' @ ''abc'') ''abc'' 0 1 = 2"
    by (simp add: sse42_verify.simps)
  have c16: "scan_chunk 16 (''abd'' @ replicate 58 CHR ''x'' @ ''abc'') CHR ''a'' 0 = Some 0"
    by (rule scan_chunk_lane0) simp_all
  have c32: "scan_chunk 32 (''abd'' @ replicate 58 CHR ''x'' @ ''abc'') CHR ''a'' 0 = Some 0"
    by (rule scan_chunk_lane0) simp_all
  have 3: "sse42_body (''abd'' @ replicate 58 CHR ''x'' @ ''abc'') ''abc'' [0, 0, 0] 62 0
     = Some (Continue 1)"
    using 2 c16
    by (simp add: sse42_body_def find_first_char_sse42_def sse42_scan16.simps
          sse42_fail.simps)
  have 4: "avx2_body (''abd'' @ replicate 58 CHR ''x'' @ ''abc'') ''abc'' [0, 0, 0] 62 0
     = Continue 2"
    using c32
    by (simp add: avx2_body_def find_first_char_avx2_def avx2_scan32.simps
          compare_avx2_def avx2_cmp32.simps cmp_tail.simps)
  from 1 2 3 4 show ?thesis by blast
qed

section \<open>The DFA matcher\<close>

lemma dfa_run_Nil: "dfa_run sts q [] = Some q"
  by (simp add: dfa_run_def)

lemma foldl_bind_None: "foldl (\<lambda>r c. Option.bind r (f c)) None cs = None"
  by (induction cs) simp_all

lemma dfa_run_Cons:
  "dfa_run sts q (c # cs) = (case dfa_step sts q c of None \<Rightarrow> None | Some q' \<Rightarrow> dfa_run sts q' cs)"
proof (cases "dfa_step sts q c")
  case None
  then show ?thesis
    using foldl_bind_None[of "\<lambda>c q'. dfa_step sts q' c" cs] by (simp add: dfa_run_def)
next
  case (Some q')
  then show ?thesis by (simp add: dfa_run_def)
qed

lemma dfa_run_snoc:
  "dfa_run sts q (cs @ [c]) = Option.bind (dfa_run sts q cs) (\<lambda>q'. dfa_step sts q' c)"
  by (simp add: dfa_run_def)

lemma matches_loop_run:
  "matches_loop sts q w \<longleftrightarrow> (\<exists>q'. dfa_run sts q w = Some q' \<and> is_accept (sts ! q'))"
proof (induction w arbitrary: q)
  case Nil
  then show ?case by (simp add: dfa_run_Nil)
next
  case (Cons c cs)
  show ?case
  proof (cases "dfa_step sts q c")
    case None
    then have "\<not> matches_loop sts q (c # cs)"
      by (auto simp: dfa_step_def Let_def split: if_splits)
    with None show ?thesis by (simp add: dfa_run_Cons)
  next
    case (Some q1)
    then have "matches_loop sts q (c # cs) = matches_loop sts q1 cs"
      by (auto simp: dfa_step_def Let_def split: if_splits)
    with Some Cons.IH[of q1] show ?thesis by (simp add: dfa_run_Cons)
  qed
qed

lemma dfa_run_take_Some:
  assumes "dfa_run sts q w = Some q'" and "i \<le> length w"
  shows "\<exists>p. dfa_run sts q (take i w) = Some p"
  using assms
proof (induction w arbitrary: q' i rule: rev_induct)
  case Nil
  then show ?case by (simp add: dfa_run_Nil)
next
  case (snoc c cs)
  from snoc.prems(1) obtain p where p: "dfa_run sts q cs = Some p"
    by (cases "dfa_run sts q cs") (simp_all add: dfa_run_snoc)
  show ?case
  proof (cases "i \<le> length cs")
    case True
    with snoc.IH[OF p True] show ?thesis by simp
  next
    case False
    with snoc.prems(2) have "take i (cs @ [c]) = cs @ [c]" by simp
    with snoc.prems(1) show ?thesis by simp
  qed
qed

lemma dfa_run_stuck:
  assumes "i < length text" and "dfa_run sts q (take i text) = Some p"
    and "dfa_step sts p (text ! i) = None"
  shows "dfa_run sts q text = None"
proof (rule ccontr)
  assume "dfa_run sts q text \<noteq> None"
  then obtain q' where q': "dfa_run sts q text = Some q'" by blast
  have "take (Suc i) text = take i text @ [text ! i]"
    using assms(1) by (rule take_Suc_conv_app_nth)
  then have "dfa_run sts q (take (Suc i) text) = None"
    using assms(2,3) by (simp add: dfa_run_snoc)
  moreover have "\<exists>r. dfa_run sts q (take (Suc i) text) = Some r"
    using q' assms(1) by (intro dfa_run_take_Some) simp_all
  ultimately show False by simp
qed

lemma dfa_run_non_ascii:
  assumes "i < length text" and "(of_char (text ! i) :: nat) \<ge> ascii_size"
  shows "dfa_run sts q text = None"
proof (cases "dfa_run sts q (take i text)")
  case None
  show ?thesis
  proof (rule ccontr)
    assume "dfa_run sts q text \<noteq> None"
    then obtain q' where "dfa_run sts q text = Some q'" by blast
    then have "\<exists>p. dfa_run sts q (take i text) = Some p"
      using assms(1) by (intro dfa_run_take_Some) simp_all
    with None show False by simp
  qed
next
  case (Some p)
  have "dfa_step sts p (text ! i) = None" using assms(2) by (simp add: dfa_step_def)
  with assms(1) Some show ?thesis by (rule dfa_run_stuck)
qed

lemma search_from_end: "length text \<le> start \<Longrightarrow> search_from sts text start = None"
  by (subst search_from.simps) simp

lemma dfa_search_empty_text: "dfa_search d [] = None"
  by (simp add: dfa_search_def search_from_end)

section \<open>Subset construction: growth, the state limit\<close>

lemma byte_step_skip:
  "next_set_of ord nfa cur c = [] \<Longrightarrow> byte_step ord nfa cur q c b = b"
  by (simp add: byte_step_def)

lemma fold_byte_step_skip:
  "\<forall>c\<in>set cs. next_set_of ord nfa cur c = [] \<Longrightarrow> fold (byte_step ord nfa cur q) cs b = b"
  by (induction cs arbitrary: b) (simp_all add: byte_step_skip)

lemma fold_bytes_none:
  assumes "\<forall>c<ascii_size. next_set_of ord nfa cur c = []"
  shows "fold (byte_step ord nfa cur q) [0..<ascii_size] b = b"
  using assms by (intro fold_byte_step_skip) simp

lemma fold_bytes_single:
  assumes "c0 < ascii_size"
    and "\<forall>c<ascii_size. c \<noteq> c0 \<longrightarrow> next_set_of ord nfa cur c = []"
  shows "fold (byte_step ord nfa cur q) [0..<ascii_size] b = byte_step ord nfa cur q c0 b"
proof -
  have "[0..<ascii_size] = [0..<c0] @ [c0..<ascii_size]"
    using assms(1) by (metis le_add_diff_inverse less_imp_le_nat upt_add_eq_append zero_le)
  also have "[c0..<ascii_size] = c0 # [Suc c0..<ascii_size]"
    using assms(1) by (rule upt_conv_Cons)
  finally have split: "[0..<ascii_size] = [0..<c0] @ c0 # [Suc c0..<ascii_size]" .
  have 1: "fold (byte_step ord nfa cur q) [0..<c0] b = b"
    using assms by (intro fold_byte_step_skip) simp
  have 2: "fold (byte_step ord nfa cur q) [Suc c0..<ascii_size] b' = b'" for b'
    using assms by (intro fold_byte_step_skip) simp
  show ?thesis by (simp add: split 1 2)
qed

lemma byte_step_bound:
  "length (bs_states (byte_step ord nfa cur q c b)) \<le> length (bs_states b) + 1"
  by (simp add: byte_step_def set_transition_def Let_def split: option.splits)

lemma fold_byte_step_bound:
  "length (bs_states (fold (byte_step ord nfa cur q) cs b)) \<le> length (bs_states b) + length cs"
proof (induction cs arbitrary: b)
  case Nil
  then show ?case by simp
next
  case (Cons c cs)
  have "length (bs_states (fold (byte_step ord nfa cur q) cs (byte_step ord nfa cur q c b)))
          \<le> length (bs_states (byte_step ord nfa cur q c b)) + length cs"
    by (rule Cons.IH)
  also have "\<dots> \<le> length (bs_states b) + 1 + length cs"
    using byte_step_bound[of ord nfa cur q c b] by simp
  finally show ?case by simp
qed

lemma expand_state_bound:
  "length (bs_states (expand_state ord nfa b p)) \<le> length (bs_states b) + ascii_size"
proof -
  let ?key = "set_to_key ord (worklist b ! p)"
  let ?b0 = "case state_map b ?key of Some q \<Rightarrow> b | None \<Rightarrow> b\<lparr>state_map := (state_map b)(?key \<mapsto> 0)\<rparr>"
  have "length (bs_states ?b0) = length (bs_states b)"
    by (simp split: option.splits)
  with fold_byte_step_bound[of ord nfa "worklist b ! p"
        "case state_map b ?key of Some q \<Rightarrow> q | None \<Rightarrow> 0" "[0..<ascii_size]" ?b0]
  show ?thesis by (simp add: expand_state_def Let_def)
qed

lemma expand_state_mono:
  "length (bs_states b) \<le> length (bs_states (expand_state ord nfa b p))"
  using expand_state_growth[of ord nfa b p] by auto

lemma build_loop_error:
  "length (bs_states b) \<le> cap + ascii_size \<Longrightarrow> build_loop ord cap nfa b p = Inl (e, b') \<Longrightarrow>
   e = StateLimitExceeded \<and> cap < length (bs_states b') \<and>
   length (bs_states b') \<le> cap + ascii_size"
proof (induction ord cap nfa b p rule: build_loop.induct)
  case (1 ord cap nfa b p)
  show ?case
  proof (cases "p < length (worklist b)")
    case False
    then have "build_loop ord cap nfa b p = Inr b" by (subst build_loop.simps) simp
    with "1.prems"(2) show ?thesis by simp
  next
    case True
    show ?thesis
    proof (cases "length (bs_states b) > cap")
      case over: True
      with True have "build_loop ord cap nfa b p = Inl (StateLimitExceeded, b)"
        by (subst build_loop.simps) simp
      with "1.prems" over show ?thesis by simp
    next
      case False
      with True have eq: "build_loop ord cap nfa b p =
          build_loop ord cap nfa (expand_state ord nfa b p) (p + 1)"
        by (subst build_loop.simps) simp
      have "length (bs_states (expand_state ord nfa b p)) \<le> length (bs_states b) + ascii_size"
        by (rule expand_state_bound)
      with False have "length (bs_states (expand_state ord nfa b p)) \<le> cap + ascii_size"
        by simp
      with "1.IH" True False "1.prems"(2) eq show ?thesis by simp
    qed
  qed
qed

lemma build_loop_nonempty:
  "bs_states b \<noteq> [] \<Longrightarrow> build_loop ord cap nfa b p = Inr b' \<Longrightarrow> bs_states b' \<noteq> []"
proof (induction ord cap nfa b p rule: build_loop.induct)
  case (1 ord cap nfa b p)
  show ?case
  proof (cases "p < length (worklist b)")
    case False
    then have "build_loop ord cap nfa b p = Inr b" by (subst build_loop.simps) simp
    with "1.prems" show ?thesis by simp
  next
    case True
    show ?thesis
    proof (cases "length (bs_states b) > cap")
      case over: True
      with True have "build_loop ord cap nfa b p = Inl (StateLimitExceeded, b)"
        by (subst build_loop.simps) simp
      with "1.prems" show ?thesis by simp
    next
      case False
      with True have eq: "build_loop ord cap nfa b p =
          build_loop ord cap nfa (expand_state ord nfa b p) (p + 1)"
        by (subst build_loop.simps) simp
      have "bs_states (expand_state ord nfa b p) \<noteq> []"
        using expand_state_mono[of b ord nfa p] "1.prems"(1) by auto
      with "1.IH" True False "1.prems"(2) eq show ?thesis by simp
    qed
  qed
qed

lemma length_patch: "length (patch nfa s t) = length nfa"
  by (simp add: patch_def Let_def)

lemma build_nfa_nonempty:
  "build_nfa fuel pattern = Some (Inr (nfa, start)) \<Longrightarrow> nfa \<noteq> []"
  by (auto simp: build_nfa_def Let_def length_patch[symmetric] simp del: length_patch
        split: option.splits sum.splits prod.splits)
     (metis length_patch length_append_singleton list.size(3) nat.simps(3))

lemma compile_nonempty:
  assumes "compile ord cap fuel pattern = Some (Inr d)"
  shows "dfa_states d \<noteq> []"
proof -
  from assms obtain nfa start b where
    n: "build_nfa fuel pattern = Some (Inr (nfa, start))"
    and b: "build_dfa ord cap nfa start = Inr b" and d: "dfa_states d = bs_states b"
    by (auto simp: compile_def split: option.splits sum.splits prod.splits)
  have ne: "nfa \<noteq> []" using n by (rule build_nfa_nonempty)
  let ?s = "epsilon_closure ord nfa [start]"
  let ?b0 = "\<lparr>bs_states = [new_dfa_state\<lparr>is_accept := accepting ord nfa ?s\<rparr>],
              state_map = [set_to_key ord ?s \<mapsto> 0], worklist = [?s]\<rparr>"
  have "build_loop ord cap nfa ?b0 0 = Inr b"
    using b ne by (simp add: build_dfa_def Let_def)
  moreover have "bs_states ?b0 \<noteq> []" by simp
  ultimately have "bs_states b \<noteq> []" by (rule build_loop_nonempty[rotated])
  with d show ?thesis by simp
qed

section \<open>The state limit: when the worklist loop throws and when it returns\<close>

lemma build_loop_done:
  "\<not> p < length (worklist b) \<Longrightarrow> build_loop ord cap nfa b p = Inr b"
  by (subst build_loop.simps) simp

lemma build_loop_raise:
  "p < length (worklist b) \<Longrightarrow> cap < length (bs_states b) \<Longrightarrow>
   build_loop ord cap nfa b p = Inl (StateLimitExceeded, b)"
  by (subst build_loop.simps) simp

lemma build_loop_step:
  "p < length (worklist b) \<Longrightarrow> \<not> cap < length (bs_states b) \<Longrightarrow>
   build_loop ord cap nfa b p = build_loop ord cap nfa (expand_state ord nfa b p) (p + 1)"
  by (subst build_loop.simps) simp

lemma expand_state_lengths:
  "length (worklist b) = length (bs_states b) \<Longrightarrow>
   length (worklist (expand_state ord nfa b p)) = length (bs_states (expand_state ord nfa b p))"
  using expand_state_growth[of ord nfa b p] by auto

text \<open>A pass after which nothing is left on the worklist has added no state.\<close>

lemma expand_state_last_pass:
  assumes "length (worklist b) = length (bs_states b)"
    and "p < length (worklist b)"
    and "\<not> p + 1 < length (worklist (expand_state ord nfa b p))"
  shows "length (bs_states (expand_state ord nfa b p)) = length (bs_states b)"
  using expand_state_growth[of ord nfa b p] assms by auto

lemma build_loop_mono:
  "build_loop ord cap nfa b p = Inr b' \<Longrightarrow> length (bs_states b) \<le> length (bs_states b')"
proof (induction ord cap nfa b p rule: build_loop.induct)
  case (1 ord cap nfa b p)
  show ?case
  proof (cases "p < length (worklist b)")
    case False
    with "1.prems" show ?thesis by (simp add: build_loop_done)
  next
    case True
    show ?thesis
    proof (cases "cap < length (bs_states b)")
      case over: True
      with True "1.prems" show ?thesis by (simp add: build_loop_raise)
    next
      case False
      with True "1.prems" have
        "build_loop ord cap nfa (expand_state ord nfa b p) (p + 1) = Inr b'"
        by (simp add: build_loop_step)
      with "1.IH" True False have
        "length (bs_states (expand_state ord nfa b p)) \<le> length (bs_states b')" by simp
      with expand_state_mono[of b ord nfa p] show ?thesis by simp
    qed
  qed
qed

text \<open>
  The same loop under two limits. If it returns under the limit \<open>cap2\<close>, then under the
  limit \<open>cap\<close> it returns the same automaton when that has at most \<open>cap\<close> states, and
  throws otherwise.
\<close>

lemma build_loop_cap:
  "length (worklist b) = length (bs_states b) \<Longrightarrow> p < length (worklist b) \<Longrightarrow>
   build_loop ord cap2 nfa b p = Inr b2 \<Longrightarrow>
   (if length (bs_states b2) \<le> cap then build_loop ord cap nfa b p = Inr b2
    else \<exists>b'. build_loop ord cap nfa b p = Inl (StateLimitExceeded, b'))"
proof (induction ord cap2 nfa b p rule: build_loop.induct)
  case (1 ord cap2 nfa b p)
  let ?b1 = "expand_state ord nfa b p"
  have nover2: "\<not> cap2 < length (bs_states b)"
  proof
    assume "cap2 < length (bs_states b)"
    with "1.prems"(2) have "build_loop ord cap2 nfa b p = Inl (StateLimitExceeded, b)"
      by (rule build_loop_raise)
    with "1.prems"(3) show False by simp
  qed
  have run2: "build_loop ord cap2 nfa ?b1 (p + 1) = Inr b2"
    using "1.prems"(2,3) nover2 by (simp add: build_loop_step)
  have mono: "length (bs_states b) \<le> length (bs_states b2)"
    using "1.prems"(3) by (rule build_loop_mono)
  have eq1: "length (worklist ?b1) = length (bs_states ?b1)"
    using "1.prems"(1) by (rule expand_state_lengths)
  show ?case
  proof (cases "cap < length (bs_states b)")
    case True
    with "1.prems"(2) have "build_loop ord cap nfa b p = Inl (StateLimitExceeded, b)"
      by (rule build_loop_raise)
    moreover have "\<not> length (bs_states b2) \<le> cap" using True mono by simp
    ultimately show ?thesis by simp
  next
    case False
    with "1.prems"(2) have step: "build_loop ord cap nfa b p = build_loop ord cap nfa ?b1 (p + 1)"
      by (rule build_loop_step)
    show ?thesis
    proof (cases "p + 1 < length (worklist ?b1)")
      case more: True
      from "1.IH"[OF "1.prems"(2) nover2 eq1 more run2] show ?thesis unfolding step .
    next
      case last: False
      then have "build_loop ord cap2 nfa ?b1 (p + 1) = Inr ?b1" by (rule build_loop_done)
      with run2 have b2: "b2 = ?b1" by simp
      have "length (bs_states ?b1) = length (bs_states b)"
        using "1.prems"(1,2) last by (rule expand_state_last_pass)
      with False b2 have le: "length (bs_states b2) \<le> cap" by simp
      have "build_loop ord cap nfa ?b1 (p + 1) = Inr ?b1" using last by (rule build_loop_done)
      with step b2 le show ?thesis by simp
    qed
  qed
qed

lemma build_dfa_cap:
  assumes "build_dfa ord cap2 nfa start = Inr b2"
  shows "if length (bs_states b2) \<le> cap then build_dfa ord cap nfa start = Inr b2
         else \<exists>b'. build_dfa ord cap nfa start = Inl (StateLimitExceeded, b')"
proof (cases "nfa = []")
  case True
  with assms show ?thesis by (auto simp: build_dfa_def)
next
  case False
  let ?s = "epsilon_closure ord nfa [start]"
  let ?b0 = "\<lparr>bs_states = [new_dfa_state\<lparr>is_accept := accepting ord nfa ?s\<rparr>],
              state_map = [set_to_key ord ?s \<mapsto> 0], worklist = [?s]\<rparr>"
  have d: "build_dfa ord c nfa start = build_loop ord c nfa ?b0 0" for c
    using False by (simp add: build_dfa_def Let_def)
  have "length (worklist ?b0) = length (bs_states ?b0)" "0 < length (worklist ?b0)" by simp_all
  moreover have "build_loop ord cap2 nfa ?b0 0 = Inr b2" using assms by (simp only: d)
  ultimately have
    "if length (bs_states b2) \<le> cap then build_loop ord cap nfa ?b0 0 = Inr b2
     else \<exists>b'. build_loop ord cap nfa ?b0 0 = Inl (StateLimitExceeded, b')"
    by (rule build_loop_cap)
  then show ?thesis by (simp only: d)
qed

lemma build_dfa_success_bound:
  assumes "build_dfa ord cap nfa start = Inr b"
  shows "length (bs_states b) \<le> cap"
proof (rule ccontr)
  assume "\<not> length (bs_states b) \<le> cap"
  with build_dfa_cap[OF assms, of cap] assms show False by simp
qed

lemma build_dfa_error_bound:
  assumes "build_dfa ord cap nfa start = Inl (e, b)"
  shows "e = StateLimitExceeded \<and> cap < length (bs_states b) \<and>
         length (bs_states b) \<le> cap + ascii_size"
proof -
  have ne: "nfa \<noteq> []" using assms by (auto simp: build_dfa_def)
  let ?s = "epsilon_closure ord nfa [start]"
  let ?b0 = "\<lparr>bs_states = [new_dfa_state\<lparr>is_accept := accepting ord nfa ?s\<rparr>],
              state_map = [set_to_key ord ?s \<mapsto> 0], worklist = [?s]\<rparr>"
  have loop: "build_loop ord cap nfa ?b0 0 = Inl (e, b)"
    using assms ne by (simp add: build_dfa_def Let_def)
  have "length (bs_states ?b0) \<le> cap + ascii_size" by (simp add: ascii_size_def)
  from build_loop_error[OF this loop] show ?thesis .
qed

section \<open>Evaluating the compiler on the sample sources\<close>

lemma parse_numeral:
  "parse_regex (numeral k) pattern st = parse_alternation (pred_numeral k) pattern st"
  "parse_alternation (numeral k) pattern st =
     pbind (parse_concatenation (pred_numeral k) pattern st) (alternation_loop (pred_numeral k) pattern)"
  "alternation_loop (numeral k) pattern left st =
     (if fst st < length pattern \<and> pattern ! (fst st) = CHR ''|'' then
        pbind (parse_concatenation (pred_numeral k) pattern (fst st + 1, snd st))
          (\<lambda>right st1.
             alternation_loop (pred_numeral k) pattern (fst (alternation_join left right st1))
               (snd (alternation_join left right st1)))
      else Some (Inr (left, st)))"
  "parse_concatenation (numeral k) pattern st =
     concatenation_loop (pred_numeral k) pattern (mk_frag 0 0) True st"
  "concatenation_loop (numeral k) pattern result first st =
     (if fst st < length pattern \<and> pattern ! (fst st) \<noteq> CHR ''|'' \<and>
         pattern ! (fst st) \<noteq> CHR '')'' then
        pbind (parse_quantified (pred_numeral k) pattern st)
          (\<lambda>atom st1.
             concatenation_loop (pred_numeral k) pattern (fst (concatenation_step result first atom st1))
               False (snd (concatenation_step result first atom st1)))
      else Some (Inr (concatenation_end result first st)))"
  "parse_quantified (numeral k) pattern st =
     pbind (parse_atom (pred_numeral k) pattern st)
       (\<lambda>base st1. Some (Inr (apply_quantifier pattern base st1)))"
  "parse_atom (numeral k) pattern st =
     (if fst st \<ge> length pattern then Some (Inl UnexpectedEnd)
      else if pattern ! (fst st) = CHR ''('' then
        pbind (parse_regex (pred_numeral k) pattern (fst st + 1, snd st)) (close_group pattern)
      else Some (simple_atom pattern (pattern ! (fst st)) st))"
  by (simp_all add: numeral_eq_Suc)

lemma build_nfa_a: "build_nfa 20 ''a'' = Some (Inr (nfa_a, 0))"
  by (simp add: build_nfa_def parse_numeral pbind_def simple_atom_def apply_quantifier_def
        concatenation_step_def concatenation_end_def mk_frag_def patch_def mk_state_def
        has_next1_def nfa_a_def Let_def)

lemma build_nfa_a_paren_b: "build_nfa 20 ''a)b'' = Some (Inr (nfa_a, 0))"
  by (simp add: build_nfa_def parse_numeral pbind_def simple_atom_def apply_quantifier_def
        concatenation_step_def concatenation_end_def mk_frag_def patch_def mk_state_def
        has_next1_def nfa_a_def Let_def)

lemma build_nfa_a_star: "build_nfa 20 ''a*'' = Some (Inr (nfa_a_star, 1))"
  by (simp add: build_nfa_def parse_numeral pbind_def simple_atom_def apply_quantifier_def
        concatenation_step_def concatenation_end_def mk_frag_def patch_def mk_state_def
        has_next1_def has_next2_def nfa_a_star_def Let_def make_star_def no_transition_def)

lemma small_not_sentinel: "0 \<noteq> no_transition" "Suc 0 \<noteq> no_transition" "2 \<noteq> no_transition"
  by (simp_all add: no_transition_def)

lemma digit_chars:
  "digit_char 0 = CHR ''0''" "digit_char (Suc 0) = CHR ''1''" "digit_char 2 = CHR ''2''"
  by (simp_all add: digit_char_def char_of_eq_iff)

lemma keys:
  "set_to_key ascending [0] = ''0,''" "set_to_key ascending [Suc 0] = ''1,''"
  "set_to_key ascending [0, Suc 0, 2] = ''0,1,2,''"
  by (simp_all add: set_to_key_def ascending_def to_string.simps digit_chars)

lemma closure_a:
  "epsilon_closure ascending nfa_a [0] = [0]"
  "epsilon_closure ascending nfa_a [Suc 0] = [Suc 0]"
  by (simp_all add: epsilon_closure_def ascending_def closure_loop.simps nfa_a_def mk_state_def)

lemma next_set_a:
  "next_set_of ascending nfa_a [0] c = (if c = 97 then [Suc 0] else [])"
  "next_set_of ascending nfa_a [Suc 0] c = []"
  by (simp_all add: next_set_of_def ascending_def nfa_a_def mk_state_def nfa_matches_def
        has_next1_def small_not_sentinel set_insert_def)

lemma accepting_a:
  "accepting ascending nfa_a [0] = False" "accepting ascending nfa_a [Suc 0] = True"
  by (simp_all add: accepting_def ascending_def nfa_a_def mk_state_def)

lemma expand_a_0:
  "expand_state ascending nfa_a
     \<lparr>bs_states = [new_dfa_state\<lparr>is_accept := False\<rparr>], state_map = [''0,'' \<mapsto> 0],
      worklist = [[0]]\<rparr> 0 = built_a"
proof -
  let ?b = "\<lparr>bs_states = [new_dfa_state\<lparr>is_accept := False\<rparr>], state_map = [''0,'' \<mapsto> 0],
             worklist = [[0]]\<rparr>"
  have "fold (byte_step ascending nfa_a [0] 0) [0..<ascii_size] ?b =
          byte_step ascending nfa_a [0] 0 97 ?b"
    by (rule fold_bytes_single) (simp_all add: ascii_size_def next_set_a)
  also have "\<dots> = built_a"
    by (simp add: byte_step_def next_set_a closure_a keys accepting_a set_transition_def
          new_dfa_state_def built_a_def Let_def)
  finally show ?thesis by (simp add: expand_state_def keys Let_def)
qed

lemma expand_a_1: "expand_state ascending nfa_a built_a (Suc 0) = built_a"
proof -
  have "fold (byte_step ascending nfa_a [Suc 0] 1) [0..<ascii_size] built_a = built_a"
    by (rule fold_bytes_none) (simp add: next_set_a)
  moreover have "worklist built_a ! Suc 0 = [Suc 0]" "state_map built_a ''1,'' = Some 1"
    by (simp_all add: built_a_def)
  ultimately show ?thesis by (simp add: expand_state_def keys Let_def)
qed

lemma build_dfa_a_limit_1: "build_dfa ascending 1 nfa_a 0 = Inl (StateLimitExceeded, built_a)"
proof -
  let ?b = "\<lparr>bs_states = [new_dfa_state\<lparr>is_accept := False\<rparr>], state_map = [''0,'' \<mapsto> 0],
             worklist = [[0]]\<rparr>"
  have "build_loop ascending 1 nfa_a ?b 0 = build_loop ascending 1 nfa_a built_a 1"
    by (subst build_loop.simps) (simp add: expand_a_0)
  also have "\<dots> = Inl (StateLimitExceeded, built_a)"
    by (subst build_loop.simps) (simp add: built_a_def)
  finally show ?thesis
    by (simp add: build_dfa_def closure_a keys accepting_a nfa_a_def[symmetric] Let_def)
       (simp add: nfa_a_def)
qed

lemma build_dfa_a:
  assumes "2 \<le> cap"
  shows "build_dfa ascending cap nfa_a 0 = Inr built_a"
proof -
  let ?b = "\<lparr>bs_states = [new_dfa_state\<lparr>is_accept := False\<rparr>], state_map = [''0,'' \<mapsto> 0],
             worklist = [[0]]\<rparr>"
  have len: "length (bs_states built_a) = 2" "length (worklist built_a) = 2"
    by (simp_all add: built_a_def)
  have "build_loop ascending cap nfa_a ?b 0 = build_loop ascending cap nfa_a built_a 1"
    using assms by (subst build_loop.simps) (simp add: expand_a_0)
  also have "\<dots> = build_loop ascending cap nfa_a built_a (Suc (Suc 0))"
    using assms len by (subst build_loop.simps) (simp add: expand_a_1)
  also have "\<dots> = Inr built_a"
    using len by (subst build_loop.simps) simp
  finally show ?thesis
    by (simp add: build_dfa_def closure_a keys accepting_a Let_def) (simp add: nfa_a_def)
qed

lemma closure_a_star:
  "epsilon_closure ascending nfa_a_star [Suc 0] = [0, Suc 0, 2]"
  by (simp add: epsilon_closure_def ascending_def closure_loop.simps nfa_a_star_def
        mk_state_def closure_visit_def has_next1_def has_next2_def small_not_sentinel
        set_insert_def)

lemma next_set_a_star:
  "next_set_of ascending nfa_a_star [0, Suc 0, 2] c = (if c = 97 then [Suc 0] else [])"
  by (simp add: next_set_of_def ascending_def nfa_a_star_def mk_state_def nfa_matches_def
        has_next1_def small_not_sentinel set_insert_def)

lemma accepting_a_star: "accepting ascending nfa_a_star [0, Suc 0, 2] = True"
  by (simp add: accepting_def ascending_def nfa_a_star_def mk_state_def)

lemma expand_a_star_0:
  "expand_state ascending nfa_a_star
     \<lparr>bs_states = [new_dfa_state\<lparr>is_accept := True\<rparr>], state_map = [''0,1,2,'' \<mapsto> 0],
      worklist = [[0, Suc 0, 2]]\<rparr> 0 = built_a_star"
proof -
  let ?b = "\<lparr>bs_states = [new_dfa_state\<lparr>is_accept := True\<rparr>], state_map = [''0,1,2,'' \<mapsto> 0],
             worklist = [[0, Suc 0, 2]]\<rparr>"
  have "fold (byte_step ascending nfa_a_star [0, Suc 0, 2] 0) [0..<ascii_size] ?b =
          byte_step ascending nfa_a_star [0, Suc 0, 2] 0 97 ?b"
    by (rule fold_bytes_single) (simp_all add: ascii_size_def next_set_a_star)
  also have "\<dots> = built_a_star"
    by (simp add: byte_step_def next_set_a_star closure_a_star keys set_transition_def
          new_dfa_state_def built_a_star_def Let_def)
  finally show ?thesis by (simp add: expand_state_def keys Let_def)
qed

lemma build_dfa_a_star:
  assumes "1 \<le> cap"
  shows "build_dfa ascending cap nfa_a_star (Suc 0) = Inr built_a_star"
proof -
  let ?b = "\<lparr>bs_states = [new_dfa_state\<lparr>is_accept := True\<rparr>], state_map = [''0,1,2,'' \<mapsto> 0],
             worklist = [[0, Suc 0, 2]]\<rparr>"
  have len: "length (bs_states built_a_star) = 1" "length (worklist built_a_star) = 1"
    by (simp_all add: built_a_star_def)
  have "build_loop ascending cap nfa_a_star ?b 0 = build_loop ascending cap nfa_a_star built_a_star 1"
    using assms by (subst build_loop.simps) (simp add: expand_a_star_0)
  also have "\<dots> = Inr built_a_star"
    using len by (subst build_loop.simps) simp
  finally show ?thesis
    by (simp add: build_dfa_def closure_a_star keys accepting_a_star Let_def)
       (simp add: nfa_a_star_def)
qed

lemma compile_a:
  "compile ascending max_dfa_states 20 ''a'' =
     Some (Inr \<lparr>dfa_states = bs_states built_a, nfa_states = nfa_a, nfa_start = 0\<rparr>)"
  by (simp add: compile_def build_nfa_a build_dfa_a max_dfa_states_def)

lemma compile_a_star:
  "compile ascending max_dfa_states 20 ''a*'' =
     Some (Inr \<lparr>dfa_states = bs_states built_a_star, nfa_states = nfa_a_star, nfa_start = 1\<rparr>)"
  by (simp add: compile_def build_nfa_a_star build_dfa_a_star max_dfa_states_def)

section \<open>Claims about the matcher and the state limit\<close>

text \<open>
  Claim C5. For every compiled DFA and every text, \<open>matches\<close> returns true exactly
  when stepping the automaton from state 0 through every byte of the text meets no
  non-ASCII byte and no dead transition and the state reached after the last byte is
  accepting; in particular a non-ASCII byte or a dead transition anywhere makes
  \<open>matches\<close> return false.
\<close>

theorem matches_correct:
  assumes "compile ord cap fuel src = Some (Inr d)"
  shows "(matches d w \<longleftrightarrow>
            (\<exists>q. dfa_run (dfa_states d) 0 w = Some q \<and> is_accept (dfa_states d ! q))) \<and>
         ((\<exists>i<length w. (of_char (w ! i) :: nat) \<ge> ascii_size) \<longrightarrow> \<not> matches d w) \<and>
         (\<forall>i q. i < length w \<and> dfa_run (dfa_states d) 0 (take i w) = Some q \<and>
                 transitions (dfa_states d ! q) ! of_char (w ! i) = no_transition
                 \<longrightarrow> \<not> matches d w)"
proof -
  have ne: "dfa_states d \<noteq> []" using assms by (rule compile_nonempty)
  then have m: "matches d w \<longleftrightarrow>
      (\<exists>q. dfa_run (dfa_states d) 0 w = Some q \<and> is_accept (dfa_states d ! q))"
    by (simp add: matches_def matches_loop_run)
  have 2: "\<not> matches d w" if "\<exists>i<length w. (of_char (w ! i) :: nat) \<ge> ascii_size"
  proof -
    from that obtain i where "i < length w" "(of_char (w ! i) :: nat) \<ge> ascii_size" by blast
    then have "dfa_run (dfa_states d) 0 w = None" by (rule dfa_run_non_ascii)
    with m show ?thesis by simp
  qed
  have 3: "\<not> matches d w"
    if "i < length w \<and> dfa_run (dfa_states d) 0 (take i w) = Some q \<and>
        transitions (dfa_states d ! q) ! of_char (w ! i) = no_transition" for i q
  proof -
    from that have "dfa_step (dfa_states d) q (w ! i) = None" by (simp add: dfa_step_def)
    with that have "dfa_run (dfa_states d) 0 w = None" by (intro dfa_run_stuck[of i w _ _ q]) simp_all
    with m show ?thesis by simp
  qed
  from m 2 3 show ?thesis by blast
qed

lemma built_a_star_states:
  "dfa_states dfa_a_star \<noteq> []"
  "is_accept (dfa_states dfa_a_star ! 0)"
  "transitions (dfa_states dfa_a_star ! 0) ! 97 = 0"
  "transitions (dfa_states dfa_a_star ! 0) ! 98 = no_transition"
  by (simp_all add: dfa_a_star_def built_a_star_def ascii_size_def)

theorem matches_correct_witness:
  "compile ascending max_dfa_states 20 ''a*'' = Some (Inr dfa_a_star) \<and>
   matches dfa_a_star ''a'' \<and>
   dfa_run (dfa_states dfa_a_star) 0 ''a'' = Some 0 \<and> is_accept (dfa_states dfa_a_star ! 0) \<and>
   0 < length [CHR 0xFF] \<and> (of_char ([CHR 0xFF] ! 0) :: nat) \<ge> ascii_size \<and>
   \<not> matches dfa_a_star [CHR 0xFF] \<and>
   0 < length ''b'' \<and> dfa_run (dfa_states dfa_a_star) 0 (take 0 ''b'') = Some 0 \<and>
   transitions (dfa_states dfa_a_star ! 0) ! of_char (''b'' ! 0) = no_transition \<and>
   \<not> matches dfa_a_star ''b''"
proof -
  have c: "compile ascending max_dfa_states 20 ''a*'' = Some (Inr dfa_a_star)"
    by (simp add: compile_a_star dfa_a_star_def)
  have run: "dfa_run (dfa_states dfa_a_star) 0 ''a'' = Some 0"
    by (simp add: dfa_run_Cons dfa_run_Nil dfa_step_def built_a_star_states ascii_size_def
          small_not_sentinel)
  have h2: "\<exists>i<length [CHR 0xFF]. (of_char ([CHR 0xFF] ! i) :: nat) \<ge> ascii_size"
    by (simp add: ascii_size_def)
  have h3: "0 < length ''b'' \<and> dfa_run (dfa_states dfa_a_star) 0 (take 0 ''b'') = Some 0 \<and>
            transitions (dfa_states dfa_a_star ! 0) ! of_char (''b'' ! 0) = no_transition"
    by (simp add: dfa_run_Nil built_a_star_states)
  from matches_correct[OF c, of "''a''"] run built_a_star_states(2)
  have 1: "matches dfa_a_star ''a''" by blast
  from matches_correct[OF c, of "[CHR 0xFF]"] h2
  have 2: "\<not> matches dfa_a_star [CHR 0xFF]" by blast
  from matches_correct[OF c, of "''b''"] h3
  have 3: "\<not> matches dfa_a_star ''b''" by blast
  from c 1 2 3 run built_a_star_states(2) h3 show ?thesis
    by (simp add: ascii_size_def)
qed

text \<open>
  Claim C9. For every successfully compiled regex \<open>R\<close>, \<open>R.search("")\<close> on the empty
  text returns no offset, also when \<open>R\<close> accepts the empty string: for \<^verbatim>\<open>a*\<close>,
  \<open>R.matches("")\<close> is true and \<open>R.search("")\<close> is \<^term>\<open>None\<close>, because
  \<open>search\<close> only tries starting offsets strictly below the text length.
\<close>

theorem search_empty_text_none:
  "(compile_regex ord fuel src = Some (Inr r) \<longrightarrow> regex_search r [] = None) \<and>
   (\<exists>r. compile_regex ascending 20 ''a*'' = Some (Inr r) \<and>
        regex_matches r [] \<and> regex_search r [] = None)"
proof -
  have 1: "regex_search r [] = None" for r
    by (simp add: regex_search_def dfa_search_empty_text split: option.splits)
  let ?r = "\<lparr>source = ''a*'', dfa = Some dfa_a_star\<rparr>"
  have c: "compile_regex ascending 20 ''a*'' = Some (Inr ?r)"
    by (simp add: compile_regex_def compile_a_star dfa_a_star_def)
  have m: "regex_matches ?r []"
    using built_a_star_states(1,2) by (simp add: regex_matches_def matches_def)
  from c m 1[of ?r] have "\<exists>r. compile_regex ascending 20 ''a*'' = Some (Inr r) \<and>
        regex_matches r [] \<and> regex_search r [] = None" by blast
  with 1 show ?thesis by blast
qed

theorem search_empty_text_none_witness:
  "compile_regex ascending 20 ''a*'' = Some (Inr \<lparr>source = ''a*'', dfa = Some dfa_a_star\<rparr>) \<and>
   regex_search \<lparr>source = ''a*'', dfa = Some dfa_a_star\<rparr> [] = None"
proof -
  have c: "compile_regex ascending 20 ''a*'' = Some (Inr \<lparr>source = ''a*'', dfa = Some dfa_a_star\<rparr>)"
    by (simp add: compile_regex_def compile_a_star dfa_a_star_def)
  from search_empty_text_none[of ascending 20 "''a*''" "\<lparr>source = ''a*'', dfa = Some dfa_a_star\<rparr>"] c
  show ?thesis by blast
qed

text \<open>
  Claim C7, as stated: the pattern-too-complex error is raised before the offending DFA
  state is added, so that at the moment the error is raised the state count does not
  exceed the cap. The limit \<^verbatim>\<open>config::max_dfa_states\<close> is a parameter of \<open>build_dfa\<close>
  here, and \<open>compile_regex\<close> passes 10000 for it. With the limit 1 and the source \<^verbatim>\<open>a\<close>,
  the error is raised with two states built.
\<close>

theorem state_limit_counterexample:
  "build_nfa 20 ''a'' = Some (Inr (nfa_a, 0)) \<and>
   build_dfa ascending 1 nfa_a 0 = Inl (StateLimitExceeded, built_a) \<and>
   length (bs_states built_a) = 2 \<and> \<not> length (bs_states built_a) \<le> 1"
proof -
  have "length (bs_states built_a) = 2" "\<not> length (bs_states built_a) \<le> 1"
    by (simp_all add: built_a_def)
  with build_nfa_a build_dfa_a_limit_1 show ?thesis by blast
qed

text \<open>
  Claim C7, amended. For every limit \<open>cap\<close> the subset construction ends in one of two
  ways.

  \<^item> It throws the pattern-too-complex error. The check is made at the start of a pass of
    the worklist loop, after the states of the pass before were added: at the moment the
    error is raised the state count is above the limit, by at most 128, and compilation
    fails with that error and returns no automaton.

  \<^item> It returns, and then the automaton has at most \<open>cap\<close> states.

  The error is raised exactly when the automaton needs more states than the limit: if the
  construction returns an automaton \<open>built\<close> under some limit \<open>lim\<close>, then under the limit
  \<open>cap\<close> it returns the same automaton when \<open>built\<close> has at most \<open>cap\<close> states, and throws
  the error when \<open>built\<close> has more.

  With the limit 10000 of \<^verbatim>\<open>config.hpp\<close>: when \<open>compile_regex\<close> fails with the error,
  between 10001 and 10128 states are built at that moment, and when it succeeds the
  automaton has at most 10000 states.
\<close>

theorem state_limit_error:
  assumes "build_nfa fuel src = Some (Inr (nfa, start))"
  shows "(case build_dfa ord cap nfa start of
            Inl (e, b) \<Rightarrow>
              e = StateLimitExceeded \<and> cap < length (bs_states b) \<and>
              length (bs_states b) \<le> cap + ascii_size \<and>
              compile ord cap fuel src = Some (Inl StateLimitExceeded)
          | Inr b \<Rightarrow>
              length (bs_states b) \<le> cap \<and>
              compile ord cap fuel src =
                Some (Inr \<lparr>dfa_states = bs_states b, nfa_states = nfa, nfa_start = start\<rparr>)) \<and>
         (build_dfa ord lim nfa start = Inr built \<longrightarrow>
            (if length (bs_states built) \<le> cap then build_dfa ord cap nfa start = Inr built
             else \<exists>b. build_dfa ord cap nfa start = Inl (StateLimitExceeded, b))) \<and>
         (case build_dfa ord max_dfa_states nfa start of
            Inl (e, b) \<Rightarrow>
              10000 < length (bs_states b) \<and> length (bs_states b) \<le> 10128 \<and>
              compile_regex ord fuel src = Some (Inl StateLimitExceeded)
          | Inr b \<Rightarrow>
              length (bs_states b) \<le> 10000 \<and>
              compile_regex ord fuel src =
                Some (Inr \<lparr>source = src,
                   dfa = Some \<lparr>dfa_states = bs_states b, nfa_states = nfa, nfa_start = start\<rparr>\<rparr>))"
proof -
  have 1: "case build_dfa ord c nfa start of
            Inl (e, b) \<Rightarrow>
              e = StateLimitExceeded \<and> c < length (bs_states b) \<and>
              length (bs_states b) \<le> c + ascii_size \<and>
              compile ord c fuel src = Some (Inl StateLimitExceeded)
          | Inr b \<Rightarrow>
              length (bs_states b) \<le> c \<and>
              compile ord c fuel src =
                Some (Inr \<lparr>dfa_states = bs_states b, nfa_states = nfa, nfa_start = start\<rparr>)"
    for c
  proof (cases "build_dfa ord c nfa start")
    case (Inl eb)
    obtain e b where eb: "eb = (e, b)" by (cases eb)
    from build_dfa_error_bound[OF Inl[unfolded eb]]
    have r: "e = StateLimitExceeded" "c < length (bs_states b)"
      "length (bs_states b) \<le> c + ascii_size" by simp_all
    have "compile ord c fuel src = Some (Inl StateLimitExceeded)"
      using assms Inl eb r(1) by (simp add: compile_def)
    with Inl eb r show ?thesis by simp
  next
    case (Inr b)
    have "length (bs_states b) \<le> c" using Inr by (rule build_dfa_success_bound)
    moreover have "compile ord c fuel src =
        Some (Inr \<lparr>dfa_states = bs_states b, nfa_states = nfa, nfa_start = start\<rparr>)"
      using assms Inr by (simp add: compile_def)
    ultimately show ?thesis using Inr by simp
  qed
  have 2: "build_dfa ord lim nfa start = Inr built \<longrightarrow>
            (if length (bs_states built) \<le> cap then build_dfa ord cap nfa start = Inr built
             else \<exists>b. build_dfa ord cap nfa start = Inl (StateLimitExceeded, b))"
    by (rule impI) (rule build_dfa_cap)
  have 3: "case build_dfa ord max_dfa_states nfa start of
            Inl (e, b) \<Rightarrow>
              10000 < length (bs_states b) \<and> length (bs_states b) \<le> 10128 \<and>
              compile_regex ord fuel src = Some (Inl StateLimitExceeded)
          | Inr b \<Rightarrow>
              length (bs_states b) \<le> 10000 \<and>
              compile_regex ord fuel src =
                Some (Inr \<lparr>source = src,
                   dfa = Some \<lparr>dfa_states = bs_states b, nfa_states = nfa, nfa_start = start\<rparr>\<rparr>)"
    using 1[of max_dfa_states]
    by (auto simp: compile_regex_def max_dfa_states_def ascii_size_def split: sum.splits)
  from 1[of cap] 2 3 show ?thesis by (intro conjI)
qed

theorem state_limit_error_witness:
  "build_nfa 20 ''a'' = Some (Inr (nfa_a, 0)) \<and>
   build_dfa ascending max_dfa_states nfa_a 0 = Inr built_a \<and>
   length (bs_states built_a) = 2 \<and>
   build_dfa ascending 1 nfa_a 0 = Inl (StateLimitExceeded, built_a) \<and>
   compile ascending 1 20 ''a'' = Some (Inl StateLimitExceeded) \<and>
   compile_regex ascending 20 ''a'' =
     Some (Inr \<lparr>source = ''a'',
        dfa = Some \<lparr>dfa_states = bs_states built_a, nfa_states = nfa_a, nfa_start = 0\<rparr>\<rparr>)"
proof -
  have big: "build_dfa ascending max_dfa_states nfa_a 0 = Inr built_a"
    by (rule build_dfa_a) (simp add: max_dfa_states_def)
  have len: "length (bs_states built_a) = 2" by (simp add: built_a_def)
  from state_limit_error[OF build_nfa_a, where ord = ascending and cap = 1
      and lim = max_dfa_states and built = built_a, unfolded build_dfa_a_limit_1]
  have low: "compile ascending 1 20 ''a'' = Some (Inl StateLimitExceeded)"
    by simp
  from state_limit_error[OF build_nfa_a, where ord = ascending and cap = max_dfa_states
      and lim = max_dfa_states and built = built_a, unfolded big]
  have high: "compile_regex ascending 20 ''a'' =
     Some (Inr \<lparr>source = ''a'',
        dfa = Some \<lparr>dfa_states = bs_states built_a, nfa_states = nfa_a, nfa_start = 0\<rparr>\<rparr>)"
    by simp
  from build_nfa_a big len build_dfa_a_limit_1 low high show ?thesis by blast
qed

section \<open>A closing parenthesis at top level ends the parse\<close>

lemma pbind_SomeE:
  assumes "pbind r k = Some (Inr res)"
  obtains frag1 st1 where "r = Some (Inr (frag1, st1))" and "k frag1 st1 = Some (Inr res)"
  using assms by (auto simp: pbind_def split: option.splits sum.splits)

lemma pbind_Some: "r = Some (Inr (frag1, st1)) \<Longrightarrow> pbind r k = k frag1 st1"
  by (simp add: pbind_def)

lemma ext_okD:
  assumes "ext_ok p x f" and "fst st \<le> length p" and "f p st = Some (Inr (frag, st'))"
  shows "fst st' \<le> length p" and "f (p @ x) st = Some (Inr (frag, st'))"
  using assms unfolding ext_ok_def by blast+

lemma class_loop_end: "length p \<le> pos \<Longrightarrow> class_loop p pos cc = (pos, cc)"
  by (subst class_loop.simps) simp

lemma class_loop_stop:
  "\<not> (pos < length p \<and> p ! pos \<noteq> CHR '']'') \<Longrightarrow> class_loop p pos cc = (pos, cc)"
  by (subst class_loop.simps) auto

lemma class_loop_escape:
  assumes "pos < length p \<and> p ! pos \<noteq> CHR '']''"
    and "p ! pos = CHR 0x5C \<and> pos + 1 < length p"
  shows "class_loop p pos cc =
         class_loop p (pos + 1 + 1) (add_escape_to_class cc (p ! (pos + 1)))"
  using assms by (subst class_loop.simps) (simp add: Let_def)

lemma class_loop_range:
  assumes "pos < length p \<and> p ! pos \<noteq> CHR '']''"
    and "\<not> (p ! pos = CHR 0x5C \<and> pos + 1 < length p)"
    and "pos + 1 + 1 < length p \<and> p ! (pos + 1) = CHR ''-'' \<and> p ! (pos + 1 + 1) \<noteq> CHR '']''"
  shows "class_loop p pos cc =
         class_loop p (pos + 1 + 2) (cc_set_range cc (p ! pos) (p ! (pos + 1 + 1)))"
  using assms by (subst class_loop.simps) (auto simp: Let_def)

lemma class_loop_single:
  assumes "pos < length p \<and> p ! pos \<noteq> CHR '']''"
    and "\<not> (p ! pos = CHR 0x5C \<and> pos + 1 < length p)"
    and "\<not> (pos + 1 + 1 < length p \<and> p ! (pos + 1) = CHR ''-'' \<and> p ! (pos + 1 + 1) \<noteq> CHR '']'')"
  shows "class_loop p pos cc = class_loop p (pos + 1) (cc_set cc (p ! pos))"
  using assms by (subst class_loop.simps) (auto simp: Let_def)

lemma class_loop_last:
  assumes "pos + 1 = length p" and "p ! pos \<noteq> CHR '']''"
  shows "fst (class_loop p pos cc) = length p"
proof -
  have "class_loop p pos cc = class_loop p (pos + 1) (cc_set cc (p ! pos))"
    using assms by (intro class_loop_single) simp_all
  then show ?thesis using assms(1) by (simp add: class_loop_end)
qed

lemma class_loop_ext:
  "pos \<le> length p \<Longrightarrow> fst (class_loop p pos cc) < length p \<Longrightarrow>
   class_loop (p @ CHR '')'' # t) pos cc = class_loop p pos cc"
proof (induction p pos cc rule: class_loop.induct)
  case (1 p pos cc)
  let ?e = "p @ CHR '')'' # t"
  show ?case
  proof (cases "pos < length p")
    case False
    with "1.prems" have "fst (class_loop p pos cc) = pos" "pos = length p"
      by (simp_all add: class_loop_end)
    with "1.prems"(2) show ?thesis by simp
  next
    case inb: True
    then have nth: "?e ! pos = p ! pos" by (simp add: nth_append)
    show ?thesis
    proof (cases "p ! pos = CHR '']''")
      case True
      then have "class_loop p pos cc = (pos, cc)" by (simp add: class_loop_stop)
      moreover have "class_loop ?e pos cc = (pos, cc)"
        using True nth by (simp add: class_loop_stop)
      ultimately show ?thesis by simp
    next
      case nb: False
      let ?c = "p ! pos"
      let ?pos1 = "pos + 1"
      show ?thesis
      proof (cases "?c = CHR 0x5C \<and> ?pos1 < length p")
        case True
        then have o: "class_loop p pos cc =
            class_loop p (?pos1 + 1) (add_escape_to_class cc (p ! ?pos1))"
          using inb nb by (intro class_loop_escape) simp_all
        have "?e ! ?pos1 = p ! ?pos1" using True by (simp add: nth_append)
        then have e: "class_loop ?e pos cc =
            class_loop ?e (?pos1 + 1) (add_escape_to_class cc (p ! ?pos1))"
          using True inb nb nth by (simp add: class_loop_escape)
        have "class_loop ?e (?pos1 + 1) (add_escape_to_class cc (p ! ?pos1)) =
              class_loop p (?pos1 + 1) (add_escape_to_class cc (p ! ?pos1))"
          using "1.IH"(1)[OF _ refl refl True] inb nb True "1.prems"(2) o by simp
        with o e show ?thesis by simp
      next
        case nesc: False
        show ?thesis
        proof (cases "?pos1 + 1 < length p \<and> p ! ?pos1 = CHR ''-'' \<and> p ! (?pos1 + 1) \<noteq> CHR '']''")
          case True
          then have o: "class_loop p pos cc =
              class_loop p (?pos1 + 2) (cc_set_range cc ?c (p ! (?pos1 + 1)))"
            using inb nb nesc class_loop_range[of pos p cc] by simp
          have n1: "?e ! ?pos1 = p ! ?pos1" "?e ! (?pos1 + 1) = p ! (?pos1 + 1)"
            using True by (simp_all add: nth_append)
          have "\<not> (?c = CHR 0x5C \<and> ?pos1 < length ?e)" using nesc True by simp
          then have e: "class_loop ?e pos cc =
              class_loop ?e (?pos1 + 2) (cc_set_range cc ?c (p ! (?pos1 + 1)))"
            using True inb nb nth n1 class_loop_range[of pos ?e cc] by simp
          have "class_loop ?e (?pos1 + 2) (cc_set_range cc ?c (p ! (?pos1 + 1))) =
                class_loop p (?pos1 + 2) (cc_set_range cc ?c (p ! (?pos1 + 1)))"
            using "1.IH"(2)[OF _ refl refl nesc True] inb nb True "1.prems"(2) o by simp
          with o e show ?thesis by simp
        next
          case nrange: False
          have o: "class_loop p pos cc = class_loop p ?pos1 (cc_set cc ?c)"
            using inb nb nesc nrange class_loop_single[of pos p cc] by simp
          with "1.prems"(2) have lt: "fst (class_loop p ?pos1 (cc_set cc ?c)) < length p" by simp
          have p1: "?pos1 < length p"
          proof (rule ccontr)
            assume "\<not> ?pos1 < length p"
            then have "fst (class_loop p ?pos1 (cc_set cc ?c)) = ?pos1" "length p \<le> ?pos1"
              by (simp_all add: class_loop_end)
            with lt show False by simp
          qed
          then have n1: "?e ! ?pos1 = p ! ?pos1" by (simp add: nth_append)
          have notesc: "\<not> (?c = CHR 0x5C \<and> ?pos1 < length ?e)" using nesc p1 by simp
          have notrange: "\<not> (?pos1 + 1 < length ?e \<and> ?e ! ?pos1 = CHR ''-'' \<and>
                              ?e ! (?pos1 + 1) \<noteq> CHR '']'')"
          proof (cases "?pos1 + 1 < length p")
            case True
            then have "?e ! (?pos1 + 1) = p ! (?pos1 + 1)" by (simp add: nth_append)
            with nrange True n1 show ?thesis by simp
          next
            case False
            with p1 have last: "?pos1 + 1 = length p" by simp
            have "p ! ?pos1 = CHR '']''"
            proof (rule ccontr)
              assume "p ! ?pos1 \<noteq> CHR '']''"
              with last have "fst (class_loop p ?pos1 (cc_set cc ?c)) = length p"
                by (rule class_loop_last)
              with lt show False by simp
            qed
            with n1 show ?thesis by simp
          qed
          have e: "class_loop ?e pos cc = class_loop ?e ?pos1 (cc_set cc ?c)"
            using inb nb nth notesc notrange class_loop_single[of pos ?e cc] by simp
          have "class_loop ?e ?pos1 (cc_set cc ?c) = class_loop p ?pos1 (cc_set cc ?c)"
            using "1.IH"(3)[OF _ refl refl nesc nrange] inb nb p1 lt by simp
          with o e show ?thesis by simp
        qed
      qed
    qed
  qed
qed

lemma nth_ext_inside: "i < length p \<Longrightarrow> (p @ x) ! i = p ! i"
  by (simp add: nth_append)

lemma nth_ext_paren: "(p @ CHR '')'' # t) ! (length p) = CHR '')''"
  by simp

lemma apply_quantifier_ext:
  assumes "fst st1 \<le> length p"
  shows "apply_quantifier (p @ CHR '')'' # t) base st1 = apply_quantifier p base st1"
proof (cases "fst st1 < length p")
  case True
  then show ?thesis by (simp add: apply_quantifier_def nth_ext_inside)
next
  case False
  with assms have "fst st1 = length p" by simp
  then show ?thesis by (simp add: apply_quantifier_def)
qed

lemma apply_quantifier_pos:
  "fst st1 \<le> length p \<Longrightarrow> fst (snd (apply_quantifier p base st1)) \<le> length p"
  by (auto simp: apply_quantifier_def Let_def split: prod.splits)

lemma close_group_ext:
  assumes "close_group p inner st1 = Some (Inr (frag, st'))"
  shows "fst st' \<le> length p \<and> close_group (p @ x) inner st1 = Some (Inr (frag, st'))"
proof -
  from assms have inb: "fst st1 < length p" and c: "p ! fst st1 = CHR '')''"
    by (auto simp: close_group_def split: if_splits)
  with assms show ?thesis by (auto simp: close_group_def nth_ext_inside)
qed

lemma parse_escape_ext:
  assumes "parse_escape p st = Inr (frag, st')"
  shows "fst st' \<le> length p \<and> parse_escape (p @ x) st = Inr (frag, st')"
proof -
  from assms have inb: "fst st < length p"
    by (cases "fst st < length p") (simp_all add: parse_escape_def)
  with assms show ?thesis
    by (auto simp: parse_escape_def Let_def nth_ext_inside)
qed

lemma parse_char_class_ext:
  assumes inb: "fst st < length p"
    and ok: "parse_char_class p st = Inr (frag, st')"
  shows "fst st' \<le> length p \<and> parse_char_class (p @ CHR '')'' # t) st = Inr (frag, st')"
proof (cases "Suc (fst st) < length p \<and> p ! Suc (fst st) = CHR ''^''")
  let ?e = "p @ CHR '')'' # t"
  case True
  then have neg: "Suc (fst st) < length ?e \<and> ?e ! Suc (fst st) = CHR ''^''"
    by (simp add: nth_ext_inside)
  obtain pos2 cc where cl: "class_loop p (Suc (Suc (fst st))) cc_empty = (pos2, cc)"
    by (cases "class_loop p (Suc (Suc (fst st))) cc_empty") auto
  from ok cl True have p2: "pos2 < length p"
    by (cases "pos2 < length p") (simp_all add: parse_char_class_def Let_def)
  have "class_loop ?e (Suc (Suc (fst st))) cc_empty = (pos2, cc)"
    using class_loop_ext[of "Suc (Suc (fst st))" p cc_empty t] True cl p2 by simp
  with ok True neg cl p2 show ?thesis
    by (auto simp: parse_char_class_def Let_def)
next
  let ?e = "p @ CHR '')'' # t"
  case False
  have neg: "\<not> (Suc (fst st) < length ?e \<and> ?e ! Suc (fst st) = CHR ''^'')"
  proof (cases "Suc (fst st) < length p")
    case True
    with False show ?thesis by (simp add: nth_ext_inside)
  next
    case False
    with inb have "Suc (fst st) = length p" by simp
    then have "?e ! Suc (fst st) = CHR '')''" by (simp only: nth_ext_paren)
    then show ?thesis by simp
  qed
  obtain pos2 cc where cl: "class_loop p (Suc (fst st)) cc_empty = (pos2, cc)"
    by (cases "class_loop p (Suc (fst st)) cc_empty") auto
  from ok cl False have p2: "pos2 < length p"
    by (cases "pos2 < length p") (auto simp: parse_char_class_def Let_def)
  have "class_loop ?e (Suc (fst st)) cc_empty = (pos2, cc)"
    using class_loop_ext[of "Suc (fst st)" p cc_empty t] inb cl p2 by simp
  with ok False neg cl p2 show ?thesis
    by (auto simp: parse_char_class_def Let_def)
qed

lemma simple_atom_ext:
  assumes inb: "fst st < length p"
    and ok: "simple_atom p c st = Inr (frag, st')"
  shows "fst st' \<le> length p \<and> simple_atom (p @ CHR '')'' # t) c st = Inr (frag, st')"
proof (cases "c = CHR ''[''")
  case True
  with ok have "parse_char_class p st = Inr (frag, st')" by (simp add: simple_atom_def)
  from parse_char_class_ext[OF inb this] True show ?thesis by (simp add: simple_atom_def)
next
  case nclass: False
  show ?thesis
  proof (cases "c = CHR 0x5C")
    case True
    with ok have "parse_escape p (fst st + 1, snd st) = Inr (frag, st')"
      by (simp add: simple_atom_def Let_def)
    from parse_escape_ext[OF this] True show ?thesis by (simp add: simple_atom_def Let_def)
  next
    case False
    with nclass ok inb show ?thesis by (auto simp: simple_atom_def Let_def split: if_splits)
  qed
qed

lemma parser_ext:
  "ext_ok p (CHR '')'' # t) (parse_regex fuel) \<and>
   ext_ok p (CHR '')'' # t) (parse_alternation fuel) \<and>
   (\<forall>left. ext_ok p (CHR '')'' # t) (\<lambda>q. alternation_loop fuel q left)) \<and>
   ext_ok p (CHR '')'' # t) (parse_concatenation fuel) \<and>
   (\<forall>res first. ext_ok p (CHR '')'' # t) (\<lambda>q. concatenation_loop fuel q res first)) \<and>
   ext_ok p (CHR '')'' # t) (parse_quantified fuel) \<and>
   ext_ok p (CHR '')'' # t) (parse_atom fuel)"
proof (induction fuel)
  case 0
  show ?case by (simp add: ext_ok_def)
next
  case (Suc fuel)
  let ?x = "CHR '')'' # t"
  let ?e = "p @ ?x"
  from Suc have regex: "ext_ok p ?x (parse_regex fuel)"
    and aloop: "\<And>left. ext_ok p ?x (\<lambda>q. alternation_loop fuel q left)"
    and conc: "ext_ok p ?x (parse_concatenation fuel)"
    and cloop: "\<And>res first. ext_ok p ?x (\<lambda>q. concatenation_loop fuel q res first)"
    and quant: "ext_ok p ?x (parse_quantified fuel)"
    and atom: "ext_ok p ?x (parse_atom fuel)"
    and alt: "ext_ok p ?x (parse_alternation fuel)"
    by blast+
  have 1: "ext_ok p ?x (parse_regex (Suc fuel))"
    using alt by (simp add: ext_ok_def)
  have 2: "ext_ok p ?x (parse_alternation (Suc fuel))"
    unfolding ext_ok_def
  proof (intro allI impI, elim conjE)
    fix st frag st'
    assume le: "fst st \<le> length p"
      and ok: "parse_alternation (Suc fuel) p st = Some (Inr (frag, st'))"
    from ok obtain f1 s1 where a: "parse_concatenation fuel p st = Some (Inr (f1, s1))"
      and b: "alternation_loop fuel p f1 s1 = Some (Inr (frag, st'))"
      by (auto elim: pbind_SomeE)
    note a' = ext_okD[OF conc le a]
    note b' = ext_okD[OF aloop a'(1) b]
    show "fst st' \<le> length p \<and> parse_alternation (Suc fuel) ?e st = Some (Inr (frag, st'))"
      using a' b' by (simp add: pbind_Some)
  qed
  have 3: "ext_ok p ?x (\<lambda>q. alternation_loop (Suc fuel) q left)" for left
    unfolding ext_ok_def
  proof (intro allI impI, elim conjE)
    fix st frag st'
    assume le: "fst st \<le> length p"
      and ok: "alternation_loop (Suc fuel) p left st = Some (Inr (frag, st'))"
    show "fst st' \<le> length p \<and>
          alternation_loop (Suc fuel) ?e left st = Some (Inr (frag, st'))"
    proof (cases "fst st < length p \<and> p ! (fst st) = CHR ''|''")
      case True
      then have c: "fst st < length ?e \<and> ?e ! (fst st) = CHR ''|''"
        by (simp add: nth_ext_inside)
      from ok True obtain right s1 where
        a: "parse_concatenation fuel p (fst st + 1, snd st) = Some (Inr (right, s1))"
        and b: "alternation_loop fuel p (fst (alternation_join left right s1))
                  (snd (alternation_join left right s1)) = Some (Inr (frag, st'))"
        by (auto elim: pbind_SomeE)
      have "fst (fst st + 1, snd st) \<le> length p" using True by simp
      note a' = ext_okD[OF conc this a]
      have "fst (snd (alternation_join left right s1)) \<le> length p"
        using a'(1) by (simp add: alternation_join_def Let_def)
      note b' = ext_okD[OF aloop this b]
      show ?thesis using c a' b' by (simp add: pbind_Some)
    next
      case False
      then have c: "\<not> (fst st < length ?e \<and> ?e ! (fst st) = CHR ''|'')"
      proof (cases "fst st < length p")
        case True
        with False show ?thesis by (simp add: nth_ext_inside)
      next
        case False
        with le have "fst st = length p" by simp
        then show ?thesis by simp
      qed
      from ok False have "frag = left" "st' = st" by auto
      with c le show ?thesis by auto
    qed
  qed
  have 4: "ext_ok p ?x (parse_concatenation (Suc fuel))"
    using cloop[of "mk_frag 0 0" True] by (simp add: ext_ok_def)
  have 5: "ext_ok p ?x (\<lambda>q. concatenation_loop (Suc fuel) q res first)" for res first
    unfolding ext_ok_def
  proof (intro allI impI, elim conjE)
    fix st frag st'
    assume le: "fst st \<le> length p"
      and ok: "concatenation_loop (Suc fuel) p res first st = Some (Inr (frag, st'))"
    show "fst st' \<le> length p \<and>
          concatenation_loop (Suc fuel) ?e res first st = Some (Inr (frag, st'))"
    proof (cases "fst st < length p \<and> p ! (fst st) \<noteq> CHR ''|'' \<and> p ! (fst st) \<noteq> CHR '')''")
      case True
      then have c: "fst st < length ?e \<and> ?e ! (fst st) \<noteq> CHR ''|'' \<and>
                    ?e ! (fst st) \<noteq> CHR '')''"
        by (simp add: nth_ext_inside)
      from ok True obtain atm s1 where
        a: "parse_quantified fuel p st = Some (Inr (atm, s1))"
        and b: "concatenation_loop fuel p (fst (concatenation_step res first atm s1)) False
                  (snd (concatenation_step res first atm s1)) = Some (Inr (frag, st'))"
        by (auto elim: pbind_SomeE)
      note a' = ext_okD[OF quant le a]
      have "fst (snd (concatenation_step res first atm s1)) \<le> length p"
        using a'(1) by (simp add: concatenation_step_def)
      note b' = ext_okD[OF cloop this b]
      show ?thesis using c a' b' by (simp add: pbind_Some)
    next
      case False
      then have c: "\<not> (fst st < length ?e \<and> ?e ! (fst st) \<noteq> CHR ''|'' \<and>
                        ?e ! (fst st) \<noteq> CHR '')'')"
      proof (cases "fst st < length p")
        case True
        with False show ?thesis by (simp add: nth_ext_inside)
      next
        case False
        with le have "fst st = length p" by simp
        then show ?thesis by simp
      qed
      from ok False have r: "(frag, st') = concatenation_end res first st" by auto
      then have "st' = snd (concatenation_end res first st)" by (metis snd_conv)
      then have "fst st' = fst st" by (simp add: concatenation_end_def Let_def)
      with c le r show ?thesis by auto
    qed
  qed
  have 6: "ext_ok p ?x (parse_quantified (Suc fuel))"
    unfolding ext_ok_def
  proof (intro allI impI, elim conjE)
    fix st frag st'
    assume le: "fst st \<le> length p"
      and ok: "parse_quantified (Suc fuel) p st = Some (Inr (frag, st'))"
    from ok obtain base s1 where a: "parse_atom fuel p st = Some (Inr (base, s1))"
      and b: "(frag, st') = apply_quantifier p base s1"
      by (auto elim: pbind_SomeE)
    note a' = ext_okD[OF atom le a]
    from b have "st' = snd (apply_quantifier p base s1)" by (metis snd_conv)
    then have "fst st' \<le> length p" using apply_quantifier_pos[OF a'(1)] by simp
    moreover have "parse_quantified (Suc fuel) ?e st = Some (Inr (frag, st'))"
      using a'(2) b apply_quantifier_ext[OF a'(1)] by (simp add: pbind_Some)
    ultimately show "fst st' \<le> length p \<and>
        parse_quantified (Suc fuel) ?e st = Some (Inr (frag, st'))" by simp
  qed
  have 7: "ext_ok p ?x (parse_atom (Suc fuel))"
    unfolding ext_ok_def
  proof (intro allI impI, elim conjE)
    fix st frag st'
    assume le: "fst st \<le> length p"
      and ok: "parse_atom (Suc fuel) p st = Some (Inr (frag, st'))"
    from ok have inb: "fst st < length p"
      by (cases "fst st < length p") simp_all
    then have n: "?e ! (fst st) = p ! (fst st)" by (simp add: nth_ext_inside)
    show "fst st' \<le> length p \<and> parse_atom (Suc fuel) ?e st = Some (Inr (frag, st'))"
    proof (cases "p ! (fst st) = CHR ''(''")
      case True
      from ok inb True obtain inner s1 where
        a: "parse_regex fuel p (fst st + 1, snd st) = Some (Inr (inner, s1))"
        and b: "close_group p inner s1 = Some (Inr (frag, st'))"
        by (auto elim: pbind_SomeE)
      have "fst (fst st + 1, snd st) \<le> length p" using inb by simp
      note a' = ext_okD[OF regex this a]
      note b' = close_group_ext[OF b, of ?x]
      show ?thesis using inb n True a' b' by (simp add: pbind_Some)
    next
      case False
      with ok inb have "simple_atom p (p ! (fst st)) st = Inr (frag, st')" by simp
      from simple_atom_ext[OF inb this, of t] False inb n show ?thesis by simp
    qed
  qed
  from 1 2 3 4 5 6 7 show ?case by blast
qed

lemma build_nfa_ext:
  assumes "build_nfa fuel s = Some (Inr r)"
  shows "build_nfa fuel (s @ CHR '')'' # t) = Some (Inr r)"
proof -
  from assms obtain frag st where p: "parse_regex fuel s (0, []) = Some (Inr (frag, st))"
    by (auto simp: build_nfa_def split: option.splits sum.splits)
  have "ext_ok s (CHR '')'' # t) (parse_regex fuel)" using parser_ext by blast
  from ext_okD(2)[OF this _ p]
  have "parse_regex fuel (s @ CHR '')'' # t) (0, []) = Some (Inr (frag, st))" by simp
  with p assms show ?thesis by (simp add: build_nfa_def)
qed

lemma compile_ext:
  assumes "compile ord cap fuel s = Some (Inr d)"
  shows "compile ord cap fuel (s @ CHR '')'' # t) = Some (Inr d)"
proof -
  from assms obtain r where "build_nfa fuel s = Some (Inr r)"
    by (auto simp: compile_def split: option.splits sum.splits)
  from build_nfa_ext[OF this] this assms show ?thesis by (simp add: compile_def)
qed

text \<open>
  Claim C10. A source with an unmatched closing parenthesis is not rejected. If a source \<open>s\<close>
  compiles, then so does \<open>s\<close> followed by a closing parenthesis and any further
  characters \<open>t\<close>: the parser stops at that parenthesis, the rest is never read, and the
  result holds the same automaton as the one compiled from \<open>s\<close>, so that \<^verbatim>\<open>matches\<close> and
  \<^verbatim>\<open>search\<close> answer the same on every text. For example \<^verbatim>\<open>a)b\<close> compiles to the
  automaton of \<^verbatim>\<open>a\<close>.
\<close>

theorem unmatched_paren_ignored:
  assumes "compile_regex ord fuel s = Some (Inr r)"
  shows "compile_regex ord fuel (s @ CHR '')'' # t) =
           Some (Inr (r\<lparr>source := s @ CHR '')'' # t\<rparr>)) \<and>
         regex_matches (r\<lparr>source := s @ CHR '')'' # t\<rparr>) w = regex_matches r w \<and>
         regex_search (r\<lparr>source := s @ CHR '')'' # t\<rparr>) w = regex_search r w"
proof -
  from assms obtain d where c: "compile ord max_dfa_states fuel s = Some (Inr d)"
    and r: "r = \<lparr>source = s, dfa = Some d\<rparr>"
    by (auto simp: compile_regex_def split: option.splits sum.splits)
  from compile_ext[OF c] r show ?thesis
    by (simp add: compile_regex_def regex_matches_def regex_search_def)
qed

theorem unmatched_paren_ignored_witness:
  "compile_regex ascending 20 ''a'' = Some (Inr \<lparr>source = ''a'', dfa = Some dfa_a\<rparr>) \<and>
   compile_regex ascending 20 ''a)b'' = Some (Inr \<lparr>source = ''a)b'', dfa = Some dfa_a\<rparr>) \<and>
   regex_matches \<lparr>source = ''a)b'', dfa = Some dfa_a\<rparr> ''a'' =
     regex_matches \<lparr>source = ''a'', dfa = Some dfa_a\<rparr> ''a''"
proof -
  have a: "compile_regex ascending 20 ''a'' = Some (Inr \<lparr>source = ''a'', dfa = Some dfa_a\<rparr>)"
    by (simp add: compile_regex_def compile_a dfa_a_def)
  from unmatched_paren_ignored[OF a, of "''b''" "''a''"] a show ?thesis by simp
qed

section \<open>The subset construction does not depend on the iteration order of the sets\<close>





































end
